theory Spec2Isabelle
  imports Complex_Main
begin

section \<open>Errors\<close>

text \<open>
  Every exception the modelled functions can raise is a value.  The constructor is the
  Python exception class; the string is a short description of the raise site.
\<close>

datatype error =
    ValueError string
  | KeyError string
  | IndexError string
  | ZeroDivisionError string

text \<open>
  A list comprehension evaluates its elements from left to right and stops at the first
  exception.
\<close>

fun sequence_err :: "(error + 'b) list \<Rightarrow> error + 'b list" where
  "sequence_err [] = Inr []"
| "sequence_err (Inl e # rs) = Inl e"
| "sequence_err (Inr v # rs) =
     (case sequence_err rs of Inl e \<Rightarrow> Inl e | Inr vs \<Rightarrow> Inr (v # vs))"

section \<open>N-dimensional arrays\<close>

text \<open>
  A \<open>numpy.ndarray\<close> is its shape and its elements in row-major (C) order.
\<close>

record 'a ndarray =
  shape :: "nat list"
  elems :: "'a list"

definition wf_array :: "'a ndarray \<Rightarrow> bool" where
  "wf_array A = (length (elems A) = prod_list (shape A))"

definition ndim :: "'a ndarray \<Rightarrow> nat" where
  "ndim A = length (shape A)"

text \<open>
  Basic slicing \<open>A[..., lo:hi, ...]\<close> along axis \<open>ax\<close> with non-negative bounds; numpy
  clamps both bounds to the axis size and gives an empty range when \<open>hi < lo\<close>.
  Only used with \<open>ax < ndim A\<close>.
\<close>

definition axis_slice :: "nat \<Rightarrow> nat \<Rightarrow> nat \<Rightarrow> 'a ndarray \<Rightarrow> 'a ndarray" where
  "axis_slice ax lo hi A =
     (let n = shape A ! ax;
          inner = prod_list (drop (Suc ax) (shape A));
          outer = prod_list (take ax (shape A));
          lo' = min lo n;
          hi' = max lo' (min hi n)
      in \<lparr>shape = (shape A)[ax := hi' - lo'],
          elems = concat (map (\<lambda>q. take ((hi' - lo') * inner)
                                       (drop ((q * n + lo') * inner) (elems A)))
                              [0..<outer])\<rparr>)"

fun cumsum_from :: "nat \<Rightarrow> nat list \<Rightarrow> nat list" where
  "cumsum_from acc [] = []"
| "cumsum_from acc (x # xs) = (acc + x) # cumsum_from (acc + x) xs"

definition cumsum :: "nat list \<Rightarrow> nat list" where
  "cumsum xs = cumsum_from 0 xs"

text \<open>
  \<open>numpy.array_split(ary, indices_or_sections, axis)\<close> for an integer number of sections:
  \<^verbatim>\<open>
    Ntotal = ary.shape[axis]
    Nsections = int(indices_or_sections)
    if Nsections <= 0: raise ValueError('number sections must be larger than 0.')
    Neach_section, extras = divmod(Ntotal, Nsections)
    section_sizes = [0] + extras * [Neach_section+1] + (Nsections-extras) * [Neach_section]
    div_points = array(section_sizes).cumsum()
    for i in range(Nsections):
        st = div_points[i]; end = div_points[i + 1]
        sub_arys.append(swapaxes(sary[st:end], axis, 0))
  \<close>
\<close>

definition array_split :: "'a ndarray \<Rightarrow> int \<Rightarrow> nat \<Rightarrow> error + 'a ndarray list" where
  "array_split ary sections axis =
     (if \<not> axis < ndim ary then Inl (IndexError ''tuple index out of range'')
      else if sections \<le> 0 then Inl (ValueError ''number sections must be larger than 0.'')
      else
        let Ntotal = shape ary ! axis;
            Nsections = nat sections;
            Neach_section = Ntotal div Nsections;
            extras = Ntotal mod Nsections;
            section_sizes = 0 # replicate extras (Neach_section + 1)
                              @ replicate (Nsections - extras) Neach_section;
            div_points = cumsum section_sizes
        in Inr (map (\<lambda>i. axis_slice axis (div_points ! i) (div_points ! (i + 1)) ary)
                    [0..<Nsections]))"

text \<open>
  \<open>numpy.concatenate(arrays, axis)\<close>: the list must be non-empty, the arrays must have
  the same rank (at least 1) and the same shape off the concatenation axis.
\<close>

definition concatenate :: "'a ndarray list \<Rightarrow> nat \<Rightarrow> error + 'a ndarray" where
  "concatenate arrays axis =
     (case arrays of
        [] \<Rightarrow> Inl (ValueError ''need at least one array to concatenate'')
      | a # rest \<Rightarrow>
          if ndim a = 0
            then Inl (ValueError ''zero-dimensional arrays cannot be concatenated'')
          else if list_ex (\<lambda>b. ndim b \<noteq> ndim a) rest
            then Inl (ValueError ''all the input arrays must have same number of dimensions'')
          else if \<not> axis < ndim a
            then Inl (ValueError ''axis is out of bounds'')
          else if list_ex (\<lambda>b. (shape b)[axis := 0] \<noteq> (shape a)[axis := 0]) rest
            then Inl (ValueError ''all the input array dimensions except for the concatenation axis must match exactly'')
          else
            let inner = prod_list (drop (Suc axis) (shape a));
                outer = prod_list (take axis (shape a))
            in Inr \<lparr>shape = (shape a)[axis := sum_list (map (\<lambda>b. shape b ! axis) arrays)],
                    elems = concat (map (\<lambda>q. concat (map (\<lambda>b.
                                  take (shape b ! axis * inner)
                                       (drop (q * (shape b ! axis) * inner) (elems b))) arrays))
                              [0..<outer])\<rparr>)"

section \<open>chunks\<close>

text \<open>
  \<^verbatim>\<open>
    def chunks(l, n):
        for i in range(0, len(l), n):
            yield l[i:i + n]
  \<close>
  \<open>range\<close> raises for a zero step and is empty for a negative one.
\<close>

definition chunks :: "'b list \<Rightarrow> int \<Rightarrow> error + 'b list list" where
  "chunks l n =
     (if n = 0 then Inl (ValueError ''range() arg 3 must not be zero'')
      else if n < 0 then Inr []
      else Inr (map (\<lambda>k. take (nat n) (drop (k * nat n) l))
                    [0..<(length l + nat n - 1) div nat n]))"

section \<open>block_split and block_merge\<close>

text \<open>
  \<^verbatim>\<open>
    result = [array]
    for axis, nblocks in enumerate(blocks):
        result = [np.array_split(_, nblocks, axis=axis) for _ in result]
        result = [item for sublist in result for item in sublist]
    return result
  \<close>
\<close>

fun block_split_loop :: "'a ndarray list \<Rightarrow> (nat \<times> int) list \<Rightarrow> error + 'a ndarray list" where
  "block_split_loop result [] = Inr result"
| "block_split_loop result ((axis, nblocks) # rest) =
     (case sequence_err (map (\<lambda>x. array_split x nblocks axis) result) of
        Inl e \<Rightarrow> Inl e
      | Inr r \<Rightarrow> block_split_loop (concat r) rest)"

definition block_split :: "'a ndarray \<Rightarrow> int list \<Rightarrow> error + 'a ndarray list" where
  "block_split array blocks =
     (if ndim array \<noteq> length blocks
        then Inl (ValueError ''Length of 'blocks' must be equal to the array dimensionality.'')
      else block_split_loop [array] (enumerate 0 blocks))"

text \<open>
  \<^verbatim>\<open>
    if len(array_list) != np.prod(blocks): raise ValueError(...)
    result = array_list
    for i, nblocks in enumerate(blocks[::-1]):
        axis = len(blocks) - i - 1
        result = [np.concatenate(_, axis=axis) for _ in chunks(result, nblocks)]
    return result[0]
  \<close>
  \<open>np.prod\<close> is taken as the exact product, which it is as long as the product fits the
  platform integer.
\<close>

fun block_merge_loop ::
  "nat \<Rightarrow> 'a ndarray list \<Rightarrow> (nat \<times> int) list \<Rightarrow> error + 'a ndarray list" where
  "block_merge_loop len_blocks result [] = Inr result"
| "block_merge_loop len_blocks result ((i, nblocks) # rest) =
     (let axis = len_blocks - i - 1 in
      case chunks result nblocks of
        Inl e \<Rightarrow> Inl e
      | Inr cs \<Rightarrow>
          (case sequence_err (map (\<lambda>c. concatenate c axis) cs) of
             Inl e \<Rightarrow> Inl e
           | Inr r \<Rightarrow> block_merge_loop len_blocks r rest))"

definition block_merge :: "'a ndarray list \<Rightarrow> int list \<Rightarrow> error + 'a ndarray" where
  "block_merge array_list blocks =
     (if int (length array_list) \<noteq> prod_list blocks
        then Inl (ValueError ''Length of array list must be equal to the product of the shape elements.'')
      else
        case block_merge_loop (length blocks) array_list (enumerate 0 (rev blocks)) of
          Inl e \<Rightarrow> Inl e
        | Inr result \<Rightarrow>
            (case result of
               [] \<Rightarrow> Inl (IndexError ''list index out of range'')
             | r # _ \<Rightarrow> Inr r))"

section \<open>Labeled containers\<close>

text \<open>
  An \<open>xarray.Dataset\<close> is its dictionary of variables, coordinate variables included, in
  insertion order.  A variable is the tuple of its dimension names and its array.  The
  dimensions of the dataset are those of its variables; a dimension needs no variable of
  its own name.
\<close>

record 'a variable =
  vdims :: "string list"
  vdata :: "'a ndarray"

type_synonym 'a dataset = "(string \<times> 'a variable) list"

fun axis_of :: "string \<Rightarrow> string list \<Rightarrow> nat" where
  "axis_of d [] = 0"
| "axis_of d (x # xs) = (if x = d then 0 else Suc (axis_of d xs))"

text \<open>\<open>ds.sizes\<close>: the mapping from dimension names to lengths.\<close>

fun sizes :: "'a dataset \<Rightarrow> string \<Rightarrow> nat option" where
  "sizes [] d = None"
| "sizes ((name, v) # rest) d =
     (if d \<in> set (vdims v) then Some (shape (vdata v) ! axis_of d (vdims v))
      else sizes rest d)"

text \<open>
  \<open>key in ds\<close> is \<open>Dataset.__contains__\<close>, which tests whether \<open>key\<close> names a variable
  of the dataset.
\<close>

definition contains :: "'a dataset \<Rightarrow> string \<Rightarrow> bool" where
  "contains ds key = (key \<in> set (map fst ds))"

fun var_ok :: "'a variable \<Rightarrow> bool" where
  "var_ok v = (wf_array (vdata v) \<and> length (vdims v) = ndim (vdata v) \<and> distinct (vdims v))"

fun agrees :: "'a dataset \<Rightarrow> 'a variable \<Rightarrow> bool" where
  "agrees ds v =
     list_all (\<lambda>d. sizes ds d = Some (shape (vdata v) ! axis_of d (vdims v))) (vdims v)"

definition wf_dataset :: "'a dataset \<Rightarrow> bool" where
  "wf_dataset ds =
     (distinct (map fst ds) \<and> list_all (\<lambda>(name, v). var_ok v \<and> agrees ds v) ds)"

text \<open>
  The bounds of a Python slice with step 1 on a sequence of length \<open>n\<close>
  (\<open>slice.indices\<close>): a negative bound counts from the end, and both are clamped to
  \<open>[0, n]\<close>.
\<close>

definition slice_bound :: "int option \<Rightarrow> nat \<Rightarrow> nat \<Rightarrow> nat" where
  "slice_bound b dflt n =
     (case b of
        None \<Rightarrow> dflt
      | Some i \<Rightarrow> if i < 0 then nat (max (i + int n) 0) else nat (min i (int n)))"

text \<open>The index-range selection \<open>[lo, hi)\<close> along \<open>dimn\<close> of every variable that has it.\<close>

definition select_range :: "'a dataset \<Rightarrow> string \<Rightarrow> nat \<Rightarrow> nat \<Rightarrow> 'a dataset" where
  "select_range ds dimn lo hi =
     map (\<lambda>(name, v).
            (name, if dimn \<in> set (vdims v)
                   then v\<lparr>vdata := axis_slice (axis_of dimn (vdims v)) lo hi (vdata v)\<rparr>
                   else v)) ds"

text \<open>\<open>ds.isel(**{dim: slice(start, stop)})\<close>.\<close>

definition isel :: "'a dataset \<Rightarrow> string \<Rightarrow> int option \<Rightarrow> int option \<Rightarrow> error + 'a dataset" where
  "isel ds dimn start stop =
     (case sizes ds dimn of
        None \<Rightarrow> Inl (ValueError ''dimensions do not exist'')
      | Some n \<Rightarrow> Inr (select_range ds dimn (slice_bound start 0 n) (slice_bound stop n n)))"

text \<open>
  \<open>xr.concat(parts, dim=dim)\<close> along an existing dimension, for operands of one schema
  (the same variables over the same dimensions): a variable over \<open>dimn\<close> is concatenated
  along its axis, any other variable must agree in all operands and is carried over.
  Operands of different schemas are reported as \<open>ValueError\<close>, and so is a \<open>dimn\<close> that
  the first operand does not have (where xarray would stack along a new dimension).
  With the option \<open>data_vars='all'\<close> xarray instead broadcasts a data variable without
  \<open>dimn\<close> along it; no statement below says what such a variable holds after a merge.
\<close>

definition concat_var ::
  "string \<Rightarrow> string \<Rightarrow> 'a variable \<Rightarrow> 'a variable option list \<Rightarrow> error + (string \<times> 'a variable)" where
  "concat_var dimn name v0 vs =
     (if list_ex (\<lambda>v. case v of None \<Rightarrow> True | Some w \<Rightarrow> vdims w \<noteq> vdims v0) vs
        then Inl (ValueError ''variables differ between the datasets'')
      else if dimn \<in> set (vdims v0)
        then (case concatenate (map (\<lambda>v. vdata (the v)) vs) (axis_of dimn (vdims v0)) of
                Inl e \<Rightarrow> Inl e
              | Inr a \<Rightarrow> Inr (name, v0\<lparr>vdata := a\<rparr>))
      else if list_ex (\<lambda>v. v \<noteq> Some v0) vs
        then Inl (ValueError ''variable not equal across datasets'')
      else Inr (name, v0))"

definition xr_concat :: "'a dataset list \<Rightarrow> string \<Rightarrow> error + 'a dataset" where
  "xr_concat parts dimn =
     (case parts of
        [] \<Rightarrow> Inl (ValueError ''must supply at least one object to concatenate'')
      | d0 # rest \<Rightarrow>
          if list_ex (\<lambda>d. set (map fst d) \<noteq> set (map fst d0)) rest
            then Inl (ValueError ''variables differ between the datasets'')
          else if sizes d0 dimn = None
            then Inl (ValueError ''concatenation along a new dimension'')
          else sequence_err
                 (map (\<lambda>(name, v0). concat_var dimn name v0 (map (\<lambda>d. map_of d name) parts)) d0))"

section \<open>xr_split and xr_merge\<close>

text \<open>
  \<^verbatim>\<open>
    n = ds.sizes[dim]
    chunksize = int(np.ceil(n / chunks))
    for i in range(chunks):
        low = max(i * chunksize - buffer, 0)
        high = min((i+1) * chunksize + buffer, n)
        idx = slice(low, high)
        chunk = ds.isel(**{dim: idx})
        yield chunk
  \<close>
  The generator is modelled by the list of what it yields.  \<open>n / chunks\<close> is Python 3
  true division; the quotient is taken exactly, as the floating-point one is for sizes
  below \<open>2^53\<close>.  The parameters \<open>dim\<close> and \<open>chunks\<close> are written \<open>dimn\<close> and
  \<open>nchunks\<close>.
\<close>

definition chunksize_of :: "nat \<Rightarrow> int \<Rightarrow> int" where
  "chunksize_of n nchunks = \<lceil>real n / real_of_int nchunks\<rceil>"

definition xr_split :: "'a dataset \<Rightarrow> string \<Rightarrow> int \<Rightarrow> int \<Rightarrow> error + 'a dataset list" where
  "xr_split ds dimn nchunks buffer =
     (case sizes ds dimn of
        None \<Rightarrow> Inl (KeyError dimn)
      | Some n \<Rightarrow>
          if nchunks = 0 then Inl (ZeroDivisionError ''division by zero'')
          else
            let chunksize = chunksize_of n nchunks in
            sequence_err
              (map (\<lambda>i. let low = max (int i * chunksize - buffer) 0;
                            high = min ((int i + 1) * chunksize + buffer) (int n)
                        in isel ds dimn (Some low) (Some high))
                   [0..<nat nchunks]))"

text \<open>
  \<^verbatim>\<open>
    if buffer > 0:
        idx_first = slice(None, -buffer)
        idx_middle = slice(buffer, -buffer)
        idx_end = slice(buffer, None)
        parts = [ds_list[0].isel(**{dim: idx_first})] + \
                [ds.isel(**{dim: idx_middle}) for ds in ds_list[1:-1]] + \
                [ds_list[-1].isel(**{dim: idx_end})]
    else:
        parts = ds_list
    return xr.concat(parts, dim=dim)
  \<close>
\<close>

definition xr_merge :: "'a dataset list \<Rightarrow> string \<Rightarrow> int \<Rightarrow> error + 'a dataset" where
  "xr_merge ds_list dimn buffer =
     (if buffer > 0 then
        (case ds_list of
           [] \<Rightarrow> Inl (IndexError ''list index out of range'')
         | d0 # rest \<Rightarrow>
             (case isel d0 dimn None (Some (- buffer)) of
                Inl e \<Rightarrow> Inl e
              | Inr first \<Rightarrow>
                  (case sequence_err (map (\<lambda>ds. isel ds dimn (Some buffer) (Some (- buffer)))
                                          (butlast rest)) of
                     Inl e \<Rightarrow> Inl e
                   | Inr middle \<Rightarrow>
                       (case isel (last ds_list) dimn (Some buffer) None of
                          Inl e \<Rightarrow> Inl e
                        | Inr lst \<Rightarrow> xr_concat ([first] @ middle @ [lst]) dimn))))
      else xr_concat ds_list dimn)"

section \<open>parallel\<close>

text \<open>
  \<^verbatim>\<open>
    def parallel(fn, dim=None, chunks=None, chunksize=None, merge=True, buffer=0,
                 compute=True):
        if dim is None:
            dim = 'lat'
        if chunks is None:
            chunks = mp.cpu_count()
        def wrapper(ds, *args, **kwargs): ...
        return wrapper
  \<close>
  The closure is the record of what \<open>wrapper\<close> captures.  \<open>mp.cpu_count()\<close> is a
  parameter.  The extra arguments of \<open>fn\<close> are part of \<open>fn\<close>.
\<close>

record 'a wrapper_closure =
  cl_fn :: "'a dataset \<Rightarrow> error + 'a dataset"
  cl_dim :: string
  cl_chunks :: int
  cl_merge :: bool
  cl_buffer :: int
  cl_compute :: bool

definition parallel ::
  "('a dataset \<Rightarrow> error + 'a dataset) \<Rightarrow> string option \<Rightarrow> int option \<Rightarrow> bool \<Rightarrow> int \<Rightarrow> bool
   \<Rightarrow> int \<Rightarrow> 'a wrapper_closure" where
  "parallel fn dimn nchunks merge buffer compute cpu_count =
     \<lparr>cl_fn = fn,
      cl_dim = (case dimn of None \<Rightarrow> ''lat'' | Some d \<Rightarrow> d),
      cl_chunks = (case nchunks of None \<Rightarrow> cpu_count | Some c \<Rightarrow> c),
      cl_merge = merge,
      cl_buffer = buffer,
      cl_compute = compute\<rparr>"

text \<open>
  The task graph built by \<open>dask.delayed\<close>: one task \<open>fn(part)\<close> per part, and on top of
  them either the task \<open>xr_merge(parts, dim, buffer)\<close> or the list of the parts.
\<close>

datatype 'a graph =
    MergeNode "'a dataset list" string int
  | ListNode "'a dataset list"

datatype 'a outcome =
    Merged "'a dataset"
  | Unmerged "'a dataset list"
  | Deferred "'a graph"

definition compute_graph ::
  "('a dataset \<Rightarrow> error + 'a dataset) \<Rightarrow> 'a graph \<Rightarrow> error + 'a outcome" where
  "compute_graph fn g =
     (case g of
        MergeNode parts dimn buffer \<Rightarrow>
          (case sequence_err (map fn parts) of
             Inl e \<Rightarrow> Inl e
           | Inr rs \<Rightarrow>
               (case xr_merge rs dimn buffer of Inl e \<Rightarrow> Inl e | Inr r \<Rightarrow> Inr (Merged r)))
      | ListNode parts \<Rightarrow>
          (case sequence_err (map fn parts) of
             Inl e \<Rightarrow> Inl e
           | Inr rs \<Rightarrow> Inr (Unmerged rs)))"

text \<open>
  \<open>ds.chunk({dim: chunksize})\<close> changes how the engine stores the arrays, not what they
  hold.
\<close>

definition rechunk :: "'a dataset \<Rightarrow> string \<Rightarrow> int \<Rightarrow> 'a dataset" where
  "rechunk ds dimn chunksize = ds"

text \<open>
  \<^verbatim>\<open>
    def wrapper(ds, *args, **kwargs):
        if dim not in ds:
            raise ValueError("The dataset has no dimension '{}'.".format(dim))
        n = ds.sizes[dim]
        chunksize = int(np.ceil(n / chunks))
        prechunked = ds.chunk({dim: chunksize})
        parts = [delayed(fn)(part, *args, **kwargs) for part in
                 xr_split(prechunked, dim=dim, chunks=chunks, buffer=buffer)]
        if merge:
            result = delayed(xr_merge)(parts, dim=dim, buffer=buffer)
        else:
            result = delayed(parts)
        if compute:
            return result.compute()
        else:
            return result
  \<close>
  The second component of the state is the number of calls of \<open>delayed\<close> made so far.
  \<open>xr_split\<close> can only raise before its first \<open>yield\<close>, so no task exists when it does.
\<close>

definition wrapper ::
  "'a wrapper_closure \<Rightarrow> nat \<Rightarrow> 'a dataset \<Rightarrow> (error + 'a outcome) \<times> nat" where
  "wrapper cl tasks ds =
     (if \<not> contains ds (cl_dim cl)
        then (Inl (ValueError (''The dataset has no dimension '' @ [CHR 0x27] @ cl_dim cl
                                 @ [CHR 0x27] @ ''.'')), tasks)
      else
        case sizes ds (cl_dim cl) of
          None \<Rightarrow> (Inl (KeyError (cl_dim cl)), tasks)
        | Some n \<Rightarrow>
            if cl_chunks cl = 0 then (Inl (ZeroDivisionError ''division by zero''), tasks)
            else
              let chunksize = chunksize_of n (cl_chunks cl);
                  prechunked = rechunk ds (cl_dim cl) chunksize
              in case xr_split prechunked (cl_dim cl) (cl_chunks cl) (cl_buffer cl) of
                   Inl e \<Rightarrow> (Inl e, tasks)
                 | Inr parts \<Rightarrow>
                     let tasks1 = tasks + length parts;
                         result = (if cl_merge cl
                                   then MergeNode parts (cl_dim cl) (cl_buffer cl)
                                   else ListNode parts);
                         tasks2 = tasks1 + 1
                     in if cl_compute cl
                        then (compute_graph (cl_fn cl) result, tasks2)
                        else (Inr (Deferred result), tasks2))"

section \<open>Closed forms for the statements\<close>

text \<open>
  The size of part \<open>i\<close> when \<open>n\<close> elements are divided into \<open>k\<close> nearly equal parts with
  the remainder on the leading parts, and the index where part \<open>i\<close> starts when the parts
  are laid out one after the other.
\<close>

definition part_size :: "nat \<Rightarrow> nat \<Rightarrow> nat \<Rightarrow> nat" where
  "part_size n k i = n div k + (if i < n mod k then 1 else 0)"

definition part_start :: "nat \<Rightarrow> nat \<Rightarrow> nat \<Rightarrow> nat" where
  "part_start n k i = sum_list (map (part_size n k) [0..<i])"

definition div_point :: "nat \<Rightarrow> nat \<Rightarrow> nat \<Rightarrow> nat" where
  "div_point n k i = i * (n div k) + min i (n mod k)"

text \<open>The \<open>k\<close> parts of an array along one axis.\<close>

definition split_parts :: "nat \<Rightarrow> nat \<Rightarrow> 'a ndarray \<Rightarrow> 'a ndarray list" where
  "split_parts ax k A =
     map (\<lambda>i. axis_slice ax (part_start (shape A ! ax) k i)
                            (part_start (shape A ! ax) k i + part_size (shape A ! ax) k i) A)
         [0..<k]"

text \<open>
  The block of \<open>A\<close> with block index \<open>idx\<close> (one part number per axis), and the block
  indices in lexicographic order: the index of axis 0 varies slowest, the last one fastest.
\<close>

definition sub_block :: "'a ndarray \<Rightarrow> int list \<Rightarrow> nat list \<Rightarrow> 'a ndarray" where
  "sub_block A blocks idx =
     foldl (\<lambda>B (ax, nblocks, i).
              axis_slice ax (part_start (shape A ! ax) (nat nblocks) i)
                            (part_start (shape A ! ax) (nat nblocks) i
                               + part_size (shape A ! ax) (nat nblocks) i) B)
           A (enumerate 0 (zip blocks idx))"

definition block_indices :: "int list \<Rightarrow> nat list list" where
  "block_indices blocks = product_lists (map (\<lambda>nblocks. [0..<nat nblocks]) blocks)"

text \<open>
  A slab of a dataset along \<open>dimn\<close>: the same variables over the same dimensions, every
  variable over \<open>dimn\<close> with \<open>m\<close> elements along it and the shape of the original on
  the other axes, every other variable unchanged.
\<close>

definition slab_var :: "string \<Rightarrow> nat \<Rightarrow> 'a variable \<Rightarrow> 'a variable \<Rightarrow> bool" where
  "slab_var dimn m v v' =
     (vdims v' = vdims v \<and>
      (if dimn \<in> set (vdims v)
       then length (shape (vdata v')) = length (shape (vdata v))
            \<and> (shape (vdata v'))[axis_of dimn (vdims v) := 0]
                = (shape (vdata v))[axis_of dimn (vdims v) := 0]
            \<and> shape (vdata v') ! axis_of dimn (vdims v) = m
       else v' = v))"

definition slab_of :: "string \<Rightarrow> 'a dataset \<Rightarrow> nat \<Rightarrow> 'a dataset \<Rightarrow> bool" where
  "slab_of dimn ds m p =
     list_all2 (\<lambda>x y. fst y = fst x \<and> slab_var dimn m (snd x) (snd y)) ds p"

definition select_var :: "string \<Rightarrow> nat \<Rightarrow> nat \<Rightarrow> 'a variable \<Rightarrow> 'a variable" where
  "select_var dimn lo hi v =
     (if dimn \<in> set (vdims v)
      then v\<lparr>vdata := axis_slice (axis_of dimn (vdims v)) lo hi (vdata v)\<rparr> else v)"

text \<open>
  Test containers: one data variable \<open>v\<close> over a single dimension \<open>d\<close> of size \<open>n\<close>,
  without and with a coordinate variable named \<open>d\<close>.
\<close>

definition plain_dataset :: "string \<Rightarrow> nat \<Rightarrow> nat dataset" where
  "plain_dataset d n = [(''v'', \<lparr>vdims = [d], vdata = \<lparr>shape = [n], elems = [0..<n]\<rparr>\<rparr>)]"

definition coord_dataset :: "string \<Rightarrow> nat \<Rightarrow> nat dataset" where
  "coord_dataset d n =
     [(d, \<lparr>vdims = [d], vdata = \<lparr>shape = [n], elems = [0..<n]\<rparr>\<rparr>),
      (''v'', \<lparr>vdims = [d], vdata = \<lparr>shape = [n], elems = map (\<lambda>i. 10 * i) [0..<n]\<rparr>\<rparr>)]"

section \<open>Lists cut into pieces\<close>

lemma concat_pieces:
  fixes c :: "nat \<Rightarrow> nat"
  assumes "\<And>i. i < k \<Longrightarrow> c i \<le> c (Suc i)"
  shows "concat (map (\<lambda>i. take (c (Suc i) - c i) (drop (base + c i) xs)) [0..<k])
         = take (c k - c 0) (drop (base + c 0) xs)"
  using assms
proof (induction k)
  case 0 show ?case by simp
next
  case (Suc k)
  have mono: "c 0 \<le> c k" using Suc.prems
    by (induction k) (auto intro: order_trans simp: less_Suc_eq)
  have step: "c k \<le> c (Suc k)" using Suc.prems by simp
  have "concat (map (\<lambda>i. take (c (Suc i) - c i) (drop (base + c i) xs)) [0..<Suc k])
        = take (c k - c 0) (drop (base + c 0) xs) @ take (c (Suc k) - c k) (drop (base + c k) xs)"
    using Suc by simp
  also have "drop (base + c k) xs = drop (c k - c 0) (drop (base + c 0) xs)"
    using mono by (simp add: add.commute)
  also have "take (c k - c 0) (drop (base + c 0) xs)
       @ take (c (Suc k) - c k) (drop (c k - c 0) (drop (base + c 0) xs))
       = take ((c k - c 0) + (c (Suc k) - c k)) (drop (base + c 0) xs)"
    by (simp only: take_add)
  also have "(c k - c 0) + (c (Suc k) - c k) = c (Suc k) - c 0"
    using mono step by simp
  finally show ?case .
qed

lemma nth_block_concat:
  assumes "\<And>i. i < m \<Longrightarrow> length (f i) = len" and "q < m"
  shows "take len (drop (q * len) (concat (map f [0..<m]))) = f q"
  using assms
proof (induction m)
  case 0 then show ?case by simp
next
  case (Suc m)
  have len: "length (concat (map f [0..<m])) = m * len"
    using Suc.prems(1) by (induction m) (auto simp: less_Suc_eq)
  show ?case
  proof (cases "q < m")
    case True
    then have "take len (drop (q * len) (concat (map f [0..<m]))) = f q"
      using Suc by simp
    moreover have "(q + 1) * len \<le> m * len" using True by (intro mult_le_mono1) simp
    ultimately show ?thesis using len by simp
  next
    case False
    then have "q = m" using Suc.prems by simp
    then show ?thesis using len Suc.prems(1)[of m] by simp
  qed
qed

lemma concat_blocks:
  "length xs = m * sz \<Longrightarrow> concat (map (\<lambda>q. take sz (drop (q * sz) xs)) [0..<m]) = xs"
proof -
  assume L: "length xs = m * sz"
  have "concat (map (\<lambda>q. take (Suc q * sz - q * sz) (drop (0 + q * sz) xs)) [0..<m])
        = take (m * sz - 0 * sz) (drop (0 + 0 * sz) xs)"
    by (rule concat_pieces) simp
  then show ?thesis using L by simp
qed

section \<open>Division points of array_split\<close>

lemma cumsum_from_nth:
  "i < length xs \<Longrightarrow> cumsum_from acc xs ! i = acc + sum_list (take (Suc i) xs)"
proof (induction xs arbitrary: acc i)
  case Nil then show ?case by simp
next
  case (Cons x xs)
  show ?case
  proof (cases i)
    case 0 then show ?thesis by simp
  next
    case (Suc j)
    with Cons.prems have "j < length xs" by simp
    from Cons.IH [OF this, of "acc + x"] Suc show ?thesis by simp
  qed
qed

lemma length_cumsum_from [simp]: "length (cumsum_from acc xs) = length xs"
  by (induction xs arbitrary: acc) auto

lemma sum_list_take_replicate:
  "sum_list (take i (replicate e (a::nat) @ replicate m b)) = min i e * a + min (i - e) m * b"
  by (simp add: sum_list_replicate min_def)

lemma div_points_nth:
  assumes "i \<le> k" and "0 < k"
  shows "cumsum (0 # replicate (n mod k) (n div k + 1) @ replicate (k - n mod k) (n div k)) ! i
         = div_point n k i"
proof -
  have e: "n mod k < k" using assms by simp
  have "i < length (0 # replicate (n mod k) (n div k + 1) @ replicate (k - n mod k) (n div k))"
    using assms e by simp
  then have "cumsum (0 # replicate (n mod k) (n div k + 1) @ replicate (k - n mod k) (n div k)) ! i
    = sum_list (take i (replicate (n mod k) (n div k + 1) @ replicate (k - n mod k) (n div k)))"
    unfolding cumsum_def by (subst cumsum_from_nth) simp_all
  also have "\<dots> = min i (n mod k) * (n div k + 1) + min (i - n mod k) (k - n mod k) * (n div k)"
    by (rule sum_list_take_replicate)
  also have "\<dots> = div_point n k i"
  proof (cases "i \<le> n mod k")
    case True then show ?thesis by (simp add: div_point_def min_def)
  next
    case False
    then have "min i (n mod k) = n mod k" "min (i - n mod k) (k - n mod k) = i - n mod k"
      using assms by auto
    moreover have "n mod k * (n div k + 1) + (i - n mod k) * (n div k) = i * (n div k) + n mod k"
      using False by (simp add: algebra_simps)
    ultimately show ?thesis by (simp add: div_point_def)
  qed
  finally show ?thesis .
qed

lemma div_point_0 [simp]: "div_point n k 0 = 0"
  by (simp add: div_point_def)

lemma div_point_k: "0 < k \<Longrightarrow> div_point n k k = n"
  by (simp add: div_point_def min_def) (metis mod_less_divisor less_imp_le_nat not_le mult.commute div_mult_mod_eq)

lemma div_point_mono: "i \<le> j \<Longrightarrow> div_point n k i \<le> div_point n k j"
  unfolding div_point_def by (intro add_mono mult_le_mono1) (simp_all add: min_def)

lemma div_point_step:
  "div_point n k (Suc i) - div_point n k i = n div k + (if i < n mod k then 1 else 0)"
  by (simp add: div_point_def min_def)

section \<open>Slices and their concatenation\<close>

lemma div_point_Suc: "div_point n k (Suc i) = div_point n k i + part_size n k i"
  by (simp add: div_point_def part_size_def min_def)

lemma part_start_Suc: "part_start n k (Suc i) = part_start n k i + part_size n k i"
  by (simp add: part_start_def)

lemma part_start_eq_div_point: "part_start n k i = div_point n k i"
  by (induction i) (simp_all add: part_start_Suc div_point_Suc, simp add: part_start_def)

lemma split_parts_div_point:
  "split_parts ax k A =
     map (\<lambda>i. axis_slice ax (div_point (shape A ! ax) k i) (div_point (shape A ! ax) k (Suc i)) A)
         [0..<k]"
  by (simp add: split_parts_def part_start_eq_div_point div_point_Suc)

lemma prod_list_split_at:
  "ax < length xs \<Longrightarrow>
   prod_list xs = prod_list (take ax xs) * (xs ! ax) * prod_list (drop (Suc ax) xs)"
  by (subst id_take_nth_drop [of ax xs]) (simp_all add: mult.assoc)

lemma prod_list_update:
  "ax < length xs \<Longrightarrow>
   prod_list (xs[ax := v]) = prod_list (take ax xs) * (v::nat) * prod_list (drop (Suc ax) xs)"
  by (simp add: upd_conv_take_nth_drop mult.assoc)

lemma axis_slice_shape:
  "shape (axis_slice ax lo hi A) = (shape A)[ax := min hi (shape A ! ax) - min lo (shape A ! ax)]"
proof -
  have "max (min lo n) (min hi n) - min lo n = min hi n - min lo n" for n :: nat
    by arith
  then show ?thesis by (simp add: axis_slice_def Let_def)
qed

lemma axis_slice_ndim [simp]: "ndim (axis_slice ax lo hi A) = ndim A"
  by (simp add: ndim_def axis_slice_shape)

lemma axis_slice_elems:
  assumes "lo \<le> hi" "hi \<le> shape A ! ax"
  shows "elems (axis_slice ax lo hi A) =
         concat (map (\<lambda>q. take ((hi - lo) * prod_list (drop (Suc ax) (shape A)))
                           (drop ((q * (shape A ! ax) + lo) * prod_list (drop (Suc ax) (shape A)))
                                 (elems A)))
                     [0..<prod_list (take ax (shape A))])"
  using assms by (simp add: axis_slice_def Let_def min_absorb1 max_absorb2)

lemma slice_piece_length:
  assumes wf: "wf_array A" and ax: "ax < ndim A"
    and "lo \<le> hi" "hi \<le> shape A ! ax" and q: "q < prod_list (take ax (shape A))"
  shows "length (take ((hi - lo) * prod_list (drop (Suc ax) (shape A)))
                  (drop ((q * (shape A ! ax) + lo) * prod_list (drop (Suc ax) (shape A)))
                        (elems A)))
         = (hi - lo) * prod_list (drop (Suc ax) (shape A))"
proof -
  let ?n = "shape A ! ax" and ?inner = "prod_list (drop (Suc ax) (shape A))"
    and ?outer = "prod_list (take ax (shape A))"
  have len: "length (elems A) = ?outer * ?n * ?inner"
    using wf ax prod_list_split_at [of ax "shape A"] by (simp add: wf_array_def ndim_def)
  have "q * ?n + hi \<le> q * ?n + ?n" using assms by simp
  also have "\<dots> = Suc q * ?n" by simp
  also have "\<dots> \<le> ?outer * ?n" using q by (intro mult_le_mono1) simp
  finally have "(q * ?n + hi) * ?inner \<le> ?outer * ?n * ?inner" by (rule mult_le_mono1)
  moreover have "(q * ?n + lo) * ?inner + (hi - lo) * ?inner = (q * ?n + hi) * ?inner"
    using assms(3) by (simp add: add_mult_distrib [symmetric])
  ultimately have "min (length (elems A) - (q * ?n + lo) * ?inner) ((hi - lo) * ?inner)
      = (hi - lo) * ?inner"
    using len by linarith
  then show ?thesis by (simp only: length_take length_drop)
qed

lemma axis_slice_wf:
  assumes wf: "wf_array A" and ax: "ax < ndim A" and "lo \<le> hi" "hi \<le> shape A ! ax"
  shows "wf_array (axis_slice ax lo hi A)"
proof -
  let ?n = "shape A ! ax" and ?inner = "prod_list (drop (Suc ax) (shape A))"
    and ?outer = "prod_list (take ax (shape A))"
  let ?f = "\<lambda>q. take ((hi - lo) * ?inner) (drop ((q * ?n + lo) * ?inner) (elems A))"
  have "length (concat (map ?f [0..<?outer])) = sum_list (map (\<lambda>q. length (?f q)) [0..<?outer])"
    by (simp add: length_concat comp_def)
  also have "map (\<lambda>q. length (?f q)) [0..<?outer] = map (\<lambda>q. (hi - lo) * ?inner) [0..<?outer]"
    by (rule map_cong [OF refl]) (use slice_piece_length [OF assms] in simp)
  also have "sum_list \<dots> = ?outer * ((hi - lo) * ?inner)"
    by (simp add: sum_list_triv)
  finally have "length (elems (axis_slice ax lo hi A)) = ?outer * ((hi - lo) * ?inner)"
    using assms by (simp add: axis_slice_elems)
  moreover have "prod_list (shape (axis_slice ax lo hi A)) = ?outer * (hi - lo) * ?inner"
    using assms ax by (simp add: axis_slice_shape prod_list_update ndim_def min_absorb1)
  ultimately show ?thesis by (simp add: wf_array_def mult.assoc)
qed

lemma same_off_axis:
  assumes "xs[ax := 0] = ys[ax := (0::nat)]"
  shows "drop (Suc ax) xs = drop (Suc ax) ys" and "take ax xs = take ax ys"
    and "xs[ax := v] = ys[ax := v]"
proof -
  have "drop (Suc ax) (xs[ax := 0]) = drop (Suc ax) (ys[ax := 0])" using assms by simp
  then show "drop (Suc ax) xs = drop (Suc ax) ys" by simp
  have "take ax (xs[ax := 0]) = take ax (ys[ax := 0])" using assms by simp
  then show "take ax xs = take ax ys" by simp
  have "xs[ax := 0, ax := v] = ys[ax := 0, ax := v]" using assms by simp
  then show "xs[ax := v] = ys[ax := v]" by simp
qed

lemma concatenate_ok:
  assumes ne: "arrs \<noteq> []"
    and sh: "\<And>b. b \<in> set arrs \<Longrightarrow> (shape b)[ax := 0] = sh[ax := 0] \<and> length (shape b) = length sh"
    and ax: "ax < length sh"
  shows "concatenate arrs ax =
         Inr \<lparr>shape = sh[ax := sum_list (map (\<lambda>b. shape b ! ax) arrs)],
              elems = concat (map (\<lambda>q. concat (map (\<lambda>b.
                          take (shape b ! ax * prod_list (drop (Suc ax) sh))
                               (drop (q * (shape b ! ax) * prod_list (drop (Suc ax) sh)) (elems b)))
                          arrs))
                        [0..<prod_list (take ax sh)])\<rparr>"
proof -
  obtain a rest where arrs: "arrs = a # rest" using ne by (cases arrs) auto
  have a: "(shape a)[ax := 0] = sh[ax := 0]" "length (shape a) = length sh"
    using sh [of a] arrs by simp_all
  have c1: "ndim a \<noteq> 0" using a ax by (auto simp: ndim_def)
  have c2: "\<not> list_ex (\<lambda>b. ndim b \<noteq> ndim a) rest"
    using sh a arrs by (auto simp: list_ex_iff ndim_def)
  have c3: "ax < ndim a" using a ax by (simp add: ndim_def)
  have c4: "\<not> list_ex (\<lambda>b. (shape b)[ax := 0] \<noteq> (shape a)[ax := 0]) rest"
    using sh a arrs by (auto simp: list_ex_iff)
  note eqs = same_off_axis [OF a(1)]
  show ?thesis
    unfolding concatenate_def arrs [symmetric]
    using c1 c2 c3 c4 by (simp add: arrs Let_def eqs)
qed

lemma sum_list_telescope:
  fixes c :: "nat \<Rightarrow> nat"
  assumes "\<And>i. i < k \<Longrightarrow> c i \<le> c (Suc i)"
  shows "sum_list (map (\<lambda>i. c (Suc i) - c i) [0..<k]) = c k - c 0"
  using assms
proof (induction k)
  case 0 show ?case by simp
next
  case (Suc k)
  have mono: "c 0 \<le> c k" using Suc.prems
    by (induction k) (auto intro: order_trans simp: less_Suc_eq)
  have "c k \<le> c (Suc k)" using Suc.prems by simp
  with mono Suc show ?case by simp
qed

lemma cuts_mono:
  fixes c :: "nat \<Rightarrow> nat"
  assumes "\<And>i. i < k \<Longrightarrow> c i \<le> c (Suc i)" and "i \<le> j" and "j \<le> k"
  shows "c i \<le> c j"
  using assms(2,3)
proof (induction j)
  case 0 then show ?case by simp
next
  case (Suc j)
  show ?case
  proof (cases "i = Suc j")
    case True then show ?thesis by simp
  next
    case False
    with Suc.prems have "i \<le> j" "j < k" by simp_all
    with Suc.IH assms(1) [of j] show ?thesis by simp
  qed
qed

lemma concatenate_slices:
  fixes c :: "nat \<Rightarrow> nat"
  assumes wf: "wf_array A" and ax: "ax < ndim A" and k: "0 < k"
    and c0: "c 0 = 0" and ck: "c k = shape A ! ax"
    and step: "\<And>i. i < k \<Longrightarrow> c i \<le> c (Suc i)"
  shows "concatenate (map (\<lambda>i. axis_slice ax (c i) (c (Suc i)) A) [0..<k]) ax = Inr A"
proof -
  let ?n = "shape A ! ax" and ?inner = "prod_list (drop (Suc ax) (shape A))"
    and ?outer = "prod_list (take ax (shape A))"
  let ?S = "\<lambda>i. axis_slice ax (c i) (c (Suc i)) A"
  let ?arrs = "map ?S [0..<k]"
  have le_n: "c j \<le> ?n" if "j \<le> k" for j
    using cuts_mono [of k c j k] step that ck by simp
  have shp: "shape (?S i) = (shape A)[ax := c (Suc i) - c i]" if "i < k" for i
    using le_n [of i] le_n [of "Suc i"] that by (simp add: axis_slice_shape min_absorb1)
  have sz: "shape (?S i) ! ax = c (Suc i) - c i" if "i < k" for i
    using shp [OF that] ax by (simp add: ndim_def)
  have ne: "?arrs \<noteq> []" using k by simp
  have cond: "(shape b)[ax := 0] = (shape A)[ax := 0] \<and> length (shape b) = length (shape A)"
    if "b \<in> set ?arrs" for b
    using that shp by auto
  have ax': "ax < length (shape A)" using ax by (simp add: ndim_def)
  note conc = concatenate_ok [OF ne cond ax']
  have sizes: "map (\<lambda>b. shape b ! ax) ?arrs = map (\<lambda>i. c (Suc i) - c i) [0..<k]"
    using sz by simp
  have total: "sum_list (map (\<lambda>b. shape b ! ax) ?arrs) = ?n"
    unfolding sizes using sum_list_telescope [of k c] step c0 ck by simp
  have piece: "take (shape (?S i) ! ax * ?inner) (drop (q * (shape (?S i) ! ax) * ?inner) (elems (?S i)))
        = take (c (Suc i) * ?inner - c i * ?inner) (drop (q * ?n * ?inner + c i * ?inner) (elems A))"
    if i: "i < k" and q: "q < ?outer" for i q
  proof -
    let ?len = "(c (Suc i) - c i) * ?inner"
    let ?f = "\<lambda>q. take ?len (drop ((q * ?n + c i) * ?inner) (elems A))"
    have el: "elems (?S i) = concat (map ?f [0..<?outer])"
      using step [OF i] le_n [of "Suc i"] i by (simp add: axis_slice_elems)
    have lens: "length (?f q') = ?len" if "q' < ?outer" for q'
      using slice_piece_length [OF wf ax step [OF i] _ that, of ] le_n [of "Suc i"] i by simp
    have "take ?len (drop (q * ?len) (concat (map ?f [0..<?outer]))) = ?f q"
      by (rule nth_block_concat) (use lens q in auto)
    then show ?thesis
      using sz [OF i] el by (simp add: mult.assoc diff_mult_distrib add_mult_distrib)
  qed
  have row: "concat (map (\<lambda>b. take (shape b ! ax * ?inner) (drop (q * (shape b ! ax) * ?inner) (elems b))) ?arrs)
        = take (?n * ?inner) (drop (q * (?n * ?inner)) (elems A))" if q: "q < ?outer" for q
  proof -
    have "concat (map (\<lambda>b. take (shape b ! ax * ?inner) (drop (q * (shape b ! ax) * ?inner) (elems b))) ?arrs)
      = concat (map (\<lambda>i. take (c (Suc i) * ?inner - c i * ?inner)
                            (drop (q * ?n * ?inner + c i * ?inner) (elems A))) [0..<k])"
      unfolding map_map comp_def
      by (rule arg_cong [where f = concat], rule map_cong [OF refl]) (use piece q in simp)
    also have "\<dots> = take (c k * ?inner - c 0 * ?inner) (drop (q * ?n * ?inner + c 0 * ?inner) (elems A))"
      by (rule concat_pieces [where c = "\<lambda>i. c i * ?inner"]) (use step in \<open>simp add: mult_le_mono1\<close>)
    finally show ?thesis using c0 ck by (simp add: mult.assoc)
  qed
  have all: "concat (map (\<lambda>q. concat (map (\<lambda>b. take (shape b ! ax * ?inner)
                  (drop (q * (shape b ! ax) * ?inner) (elems b))) ?arrs)) [0..<?outer])
        = elems A"
  proof -
    have "concat (map (\<lambda>q. concat (map (\<lambda>b. take (shape b ! ax * ?inner)
                  (drop (q * (shape b ! ax) * ?inner) (elems b))) ?arrs)) [0..<?outer])
        = concat (map (\<lambda>q. take (?n * ?inner) (drop (q * (?n * ?inner)) (elems A))) [0..<?outer])"
      by (rule arg_cong [where f = concat], rule map_cong [OF refl]) (use row in simp)
    also have "\<dots> = elems A"
      by (rule concat_blocks)
         (use wf ax prod_list_split_at [of ax "shape A"] in \<open>simp add: wf_array_def ndim_def mult.assoc\<close>)
    finally show ?thesis .
  qed
  have "concatenate ?arrs ax = Inr \<lparr>shape = (shape A)[ax := ?n], elems = elems A\<rparr>"
    by (simp only: conc total all)
  then show ?thesis by simp
qed

section \<open>One axis: split, chunk, concatenate\<close>

lemma array_split_eq:
  assumes "ax < ndim A" and "0 < b"
  shows "array_split A b ax = Inr (split_parts ax (nat b) A)"
proof -
  let ?k = "nat b" and ?n = "shape A ! ax"
  have k: "0 < ?k" using assms by simp
  have "axis_slice ax
          (cumsum (0 # replicate (?n mod ?k) (?n div ?k + 1) @ replicate (?k - ?n mod ?k) (?n div ?k)) ! i)
          (cumsum (0 # replicate (?n mod ?k) (?n div ?k + 1) @ replicate (?k - ?n mod ?k) (?n div ?k)) ! (i + 1)) A
        = axis_slice ax (div_point ?n ?k i) (div_point ?n ?k (Suc i)) A" if "i < ?k" for i
    using that k div_points_nth [of i ?k ?n] div_points_nth [of "i + 1" ?k ?n] by simp
  then have "map (\<lambda>i. axis_slice ax
          (cumsum (0 # replicate (?n mod ?k) (?n div ?k + 1) @ replicate (?k - ?n mod ?k) (?n div ?k)) ! i)
          (cumsum (0 # replicate (?n mod ?k) (?n div ?k + 1) @ replicate (?k - ?n mod ?k) (?n div ?k)) ! (i + 1)) A)
          [0..<?k] = split_parts ax ?k A"
    unfolding split_parts_div_point by (intro map_cong [OF refl]) simp
  then show ?thesis using assms by (simp add: array_split_def Let_def)
qed

lemma length_split_parts [simp]: "length (split_parts ax k A) = k"
  by (simp add: split_parts_def)

lemma div_point_le: "0 < k \<Longrightarrow> i \<le> k \<Longrightarrow> div_point n k i \<le> n"
  using div_point_mono [of i k n k] by (simp add: div_point_k)

lemma split_parts_props:
  assumes "wf_array A" "ax < ndim A" "0 < k" "B \<in> set (split_parts ax k A)"
  shows "wf_array B" and "ndim B = ndim A"
  using assms
  by (auto simp: split_parts_div_point intro!: axis_slice_wf div_point_mono div_point_le)

lemma concatenate_split_parts:
  assumes "wf_array A" "ax < ndim A" "0 < k"
  shows "concatenate (split_parts ax k A) ax = Inr A"
  unfolding split_parts_div_point
  by (rule concatenate_slices [OF assms])
     (simp_all add: div_point_k assms div_point_mono)

lemma sequence_err_map_Inr:
  assumes "\<And>x. x \<in> set xs \<Longrightarrow> f x = Inr (g x)"
  shows "sequence_err (map f xs) = Inr (map g xs)"
  using assms by (induction xs) simp_all

lemma chunks_concat:
  assumes "0 < n" and "\<And>ys. ys \<in> set yss \<Longrightarrow> length ys = nat n"
  shows "chunks (concat yss) n = Inr yss"
proof -
  let ?m = "nat n"
  have m: "0 < ?m" using assms by simp
  have len: "length (concat yss) = length yss * ?m"
    using assms(2) by (induction yss) simp_all
  have cnt: "(length (concat yss) + ?m - 1) div ?m = length yss"
  proof -
    have "length yss * ?m + ?m - 1 = (?m - 1) + length yss * ?m" using m by simp
    moreover have "((?m - 1) + length yss * ?m) div ?m = length yss + (?m - 1) div ?m"
      using m by (intro div_mult_self1) simp
    moreover have "(?m - 1) div ?m = 0" using m by simp
    ultimately show ?thesis unfolding len by presburger
  qed
  have "map (\<lambda>k. take ?m (drop (k * ?m) (concat yss))) [0..<length yss] = yss"
  proof (rule nth_equalityI)
    show "length (map (\<lambda>k. take ?m (drop (k * ?m) (concat yss))) [0..<length yss]) = length yss"
      by simp
  next
    fix i assume "i < length (map (\<lambda>k. take ?m (drop (k * ?m) (concat yss))) [0..<length yss])"
    then have i: "i < length yss" by simp
    have "concat yss = concat (map (\<lambda>j. yss ! j) [0..<length yss])"
      by (simp add: map_nth)
    moreover have "take ?m (drop (i * ?m) (concat (map (\<lambda>j. yss ! j) [0..<length yss]))) = yss ! i"
      by (rule nth_block_concat) (use assms(2) i in auto)
    ultimately show "map (\<lambda>k. take ?m (drop (k * ?m) (concat yss))) [0..<length yss] ! i = yss ! i"
      using i by simp
  qed
  then have "map (\<lambda>k. take ?m (drop (k * ?m) (concat yss)))
                 [0..<(length (concat yss) + ?m - 1) div ?m] = yss"
    by (simp only: cnt)
  then show ?thesis using assms(1) unfolding chunks_def by (simp del: One_nat_def)
qed

lemma block_split_loop_append:
  "block_split_loop res (xs @ ys) =
     (case block_split_loop res xs of Inl e \<Rightarrow> Inl e | Inr r \<Rightarrow> block_split_loop r ys)"
  by (induction res xs rule: block_split_loop.induct) (auto split: sum.splits)

lemma block_merge_loop_shift:
  "block_merge_loop (Suc L) res (enumerate (Suc j) xs) = block_merge_loop L res (enumerate j xs)"
  by (induction xs arbitrary: j res) (auto simp: Let_def split: sum.splits)

lemma split_step:
  assumes "\<And>x. x \<in> set res \<Longrightarrow> wf_array x \<and> ax < ndim x" and "0 < b"
  shows "sequence_err (map (\<lambda>x. array_split x b ax) res) = Inr (map (split_parts ax (nat b)) res)"
proof (rule sequence_err_map_Inr)
  fix x assume "x \<in> set res"
  then have "ax < ndim x" using assms(1) by simp
  then show "array_split x b ax = Inr (split_parts ax (nat b) x)"
    using assms(2) by (rule array_split_eq)
qed

lemma merge_step:
  assumes "\<And>x. x \<in> set res \<Longrightarrow> wf_array x \<and> ax < ndim x" and "0 < b"
  shows "chunks (concat (map (split_parts ax (nat b)) res)) b = Inr (map (split_parts ax (nat b)) res)"
    and "sequence_err (map (\<lambda>c. concatenate c ax) (map (split_parts ax (nat b)) res)) = Inr res"
proof -
  show "chunks (concat (map (split_parts ax (nat b)) res)) b = Inr (map (split_parts ax (nat b)) res)"
    by (rule chunks_concat) (use assms(2) in auto)
  have k: "0 < nat b" using assms(2) by simp
  have "sequence_err (map (\<lambda>x. concatenate (split_parts ax (nat b) x) ax) res) = Inr (map (\<lambda>x. x) res)"
  proof (rule sequence_err_map_Inr)
    fix x assume "x \<in> set res"
    then have "wf_array x" "ax < ndim x" using assms(1) by simp_all
    then show "concatenate (split_parts ax (nat b) x) ax = Inr x"
      using k by (rule concatenate_split_parts)
  qed
  then show "sequence_err (map (\<lambda>c. concatenate c ax) (map (split_parts ax (nat b)) res)) = Inr res"
    by (simp add: comp_def)
qed

lemma split_merge_loops:
  assumes "\<And>x. x \<in> set res \<Longrightarrow> wf_array x \<and> ndim x = r"
    and "length bs \<le> r" and "\<And>b. b \<in> set bs \<Longrightarrow> 0 < b"
  shows "\<exists>R. block_split_loop res (enumerate 0 bs) = Inr R
           \<and> (\<forall>y\<in>set R. wf_array y \<and> ndim y = r)
           \<and> length R = length res * nat (prod_list bs)
           \<and> block_merge_loop (length bs) R (enumerate 0 (rev bs)) = Inr res"
  using assms(2,3)
proof (induction bs rule: rev_induct)
  case Nil
  then show ?case using assms(1) by simp
next
  case (snoc b bs)
  let ?ax = "length bs"
  have b: "0 < b" and ax: "?ax < r" using snoc.prems by simp_all
  from snoc obtain R where R: "block_split_loop res (enumerate 0 bs) = Inr R"
    and Rwf: "\<And>y. y \<in> set R \<Longrightarrow> wf_array y \<and> ndim y = r"
    and Rlen: "length R = length res * nat (prod_list bs)"
    and Rmerge: "block_merge_loop (length bs) R (enumerate 0 (rev bs)) = Inr res"
    by auto
  have Rax: "\<And>y. y \<in> set R \<Longrightarrow> wf_array y \<and> ?ax < ndim y" using Rwf ax by simp
  let ?R' = "concat (map (split_parts ?ax (nat b)) R)"
  have split: "block_split_loop res (enumerate 0 (bs @ [b])) = Inr ?R'"
    using R split_step [OF Rax b]
    by (simp add: enumerate_append_eq block_split_loop_append)
  have k: "0 < nat b" using b by simp
  have wf': "\<forall>y\<in>set ?R'. wf_array y \<and> ndim y = r"
  proof
    fix y assume "y \<in> set ?R'"
    then obtain x where x: "x \<in> set R" and y: "y \<in> set (split_parts ?ax (nat b) x)" by auto
    have "wf_array x" "?ax < ndim x" "ndim x = r" using Rax [OF x] Rwf [OF x] by simp_all
    with split_parts_props [OF _ _ k y] show "wf_array y \<and> ndim y = r" by simp
  qed
  have "length ?R' = length R * nat b"
    by (induction R) simp_all
  moreover have "0 \<le> prod_list bs"
    using snoc.prems(2) by (intro prod_list_nonneg) force
  ultimately have len': "length ?R' = length res * nat (prod_list (bs @ [b]))"
    using Rlen b by (simp add: nat_mult_distrib)
  have "block_merge_loop (length (bs @ [b])) ?R' (enumerate 0 (rev (bs @ [b])))
        = block_merge_loop (Suc ?ax) R (enumerate (Suc 0) (rev bs))"
    using merge_step [OF Rax b] by simp
  also have "\<dots> = Inr res"
    using Rmerge by (simp only: block_merge_loop_shift)
  finally show ?case using split wf' len' by blast
qed

section \<open>Block indices and sub-blocks\<close>

lemma concat_concat_map: "concat (concat xss) = concat (map concat xss)"
  by (induction xss) simp_all

lemma product_lists_snoc:
  "product_lists (xss @ [ys]) =
     concat (map (\<lambda>p. map (\<lambda>y. p @ [y]) ys) (product_lists xss))"
proof (induction xss)
  case Nil
  show ?case by (simp add: comp_def)
next
  case (Cons xs xss)
  show ?case
    by (simp add: Cons map_concat comp_def concat_concat_map)
qed

lemma block_indices_snoc:
  "block_indices (bs @ [b]) =
     concat (map (\<lambda>idx. map (\<lambda>i. idx @ [i]) [0..<nat b]) (block_indices bs))"
  by (simp add: block_indices_def product_lists_snoc)

lemma block_indices_length:
  "idx \<in> set (block_indices bs) \<Longrightarrow> length idx = length bs"
  by (auto simp: block_indices_def dest: in_set_product_lists_length)

lemma sub_block_snoc:
  assumes "length idx = length bs"
  shows "sub_block A (bs @ [b]) (idx @ [i]) =
         axis_slice (length bs)
           (part_start (shape A ! length bs) (nat b) i)
           (part_start (shape A ! length bs) (nat b) i + part_size (shape A ! length bs) (nat b) i)
           (sub_block A bs idx)"
  using assms by (simp add: sub_block_def enumerate_append_eq)

lemma axis_slice_shape_other:
  "ax \<noteq> j \<Longrightarrow> shape (axis_slice ax lo hi B) ! j = shape B ! j"
  by (simp add: axis_slice_shape)

lemma foldl_slices_shape_other:
  assumes "\<And>ax b i. (ax, b, i) \<in> set xs \<Longrightarrow> ax \<noteq> j"
  shows "shape (foldl (\<lambda>B (ax, nblocks, i). axis_slice ax (lo ax nblocks i) (hi ax nblocks i) B) B0 xs) ! j
         = shape B0 ! j"
  using assms
proof (induction xs arbitrary: B0)
  case Nil show ?case by simp
next
  case (Cons x xs)
  obtain ax b i where x: "x = (ax, b, i)" by (cases x) auto
  have "ax \<noteq> j" using Cons.prems [of ax b i] x by simp
  moreover have "\<And>ax b i. (ax, b, i) \<in> set xs \<Longrightarrow> ax \<noteq> j" using Cons.prems by auto
  ultimately show ?case using Cons.IH x by (simp add: axis_slice_shape_other)
qed

lemma sub_block_shape_above:
  assumes "length bs \<le> j"
  shows "shape (sub_block A bs idx) ! j = shape A ! j"
  unfolding sub_block_def
proof (rule foldl_slices_shape_other)
  fix ax b i assume "(ax, b, i) \<in> set (enumerate 0 (zip bs idx))"
  then have "ax < length (zip bs idx)" by (auto simp: in_set_enumerate_eq)
  then show "ax \<noteq> j" using assms by simp
qed

lemma split_parts_sub_block:
  assumes "length idx = length bs"
  shows "split_parts (length bs) (nat b) (sub_block A bs idx)
         = map (\<lambda>i. sub_block A (bs @ [b]) (idx @ [i])) [0..<nat b]"
  using assms
  by (simp add: split_parts_def sub_block_snoc sub_block_shape_above)

lemma block_split_loop_enum:
  assumes wf: "wf_array A" and "length bs \<le> ndim A" and "\<And>b. b \<in> set bs \<Longrightarrow> 0 < b"
  shows "block_split_loop [A] (enumerate 0 bs) = Inr (map (sub_block A bs) (block_indices bs))"
  using assms(2,3)
proof (induction bs rule: rev_induct)
  case Nil
  show ?case by (simp add: sub_block_def block_indices_def)
next
  case (snoc b bs)
  let ?ax = "length bs" and ?R = "map (sub_block A bs) (block_indices bs)"
  have b: "0 < b" and ax: "?ax < ndim A" and len: "length bs \<le> ndim A"
    and pos: "\<And>b. b \<in> set bs \<Longrightarrow> 0 < b"
    using snoc.prems by simp_all
  have IH: "block_split_loop [A] (enumerate 0 bs) = Inr ?R"
    using snoc.IH [OF len pos] .
  have "\<exists>R. block_split_loop [A] (enumerate 0 bs) = Inr R
           \<and> (\<forall>y\<in>set R. wf_array y \<and> ndim y = ndim A)
           \<and> length R = length [A] * nat (prod_list bs)
           \<and> block_merge_loop (length bs) R (enumerate 0 (rev bs)) = Inr [A]"
  proof (rule split_merge_loops)
    show "\<And>x. x \<in> set [A] \<Longrightarrow> wf_array x \<and> ndim x = ndim A" using wf by simp
    show "length bs \<le> ndim A" by (rule len)
    show "\<And>b. b \<in> set bs \<Longrightarrow> 0 < b" by (rule pos)
  qed
  with IH have Rwf: "\<And>y. y \<in> set ?R \<Longrightarrow> wf_array y \<and> ?ax < ndim y"
    using ax by auto
  have st: "sequence_err (map (\<lambda>x. array_split x b ?ax) ?R)
            = Inr (map (split_parts ?ax (nat b)) ?R)"
    by (rule split_step) (use Rwf b in blast)+
  have "block_split_loop [A] (enumerate 0 (bs @ [b]))
        = Inr (concat (map (split_parts ?ax (nat b)) ?R))"
    using IH st by (simp add: enumerate_append_eq block_split_loop_append)
  also have "concat (map (split_parts ?ax (nat b)) ?R)
        = concat (map (\<lambda>idx. map (\<lambda>i. sub_block A (bs @ [b]) (idx @ [i])) [0..<nat b])
                      (block_indices bs))"
    unfolding map_map comp_def
    by (rule arg_cong [where f = concat], rule map_cong [OF refl])
       (simp add: split_parts_sub_block block_indices_length)
  also have "\<dots> = map (sub_block A (bs @ [b])) (block_indices (bs @ [b]))"
    by (simp add: block_indices_snoc map_concat comp_def)
  finally show ?case .
qed

lemma split_then_merge:
  assumes "wf_array A" and "length blocks = ndim A" and "\<And>b. b \<in> set blocks \<Longrightarrow> 1 \<le> b"
  shows "\<exists>bl. block_split A blocks = Inr bl \<and> block_merge bl blocks = Inr A"
proof -
  have "\<exists>R. block_split_loop [A] (enumerate 0 blocks) = Inr R
           \<and> (\<forall>y\<in>set R. wf_array y \<and> ndim y = ndim A)
           \<and> length R = length [A] * nat (prod_list blocks)
           \<and> block_merge_loop (length blocks) R (enumerate 0 (rev blocks)) = Inr [A]"
  proof (rule split_merge_loops)
    show "\<And>x. x \<in> set [A] \<Longrightarrow> wf_array x \<and> ndim x = ndim A" using assms(1) by simp
    show "length blocks \<le> ndim A" using assms(2) by simp
    show "\<And>b. b \<in> set blocks \<Longrightarrow> 0 < b" using assms(3) by force
  qed
  then obtain R where R: "block_split_loop [A] (enumerate 0 blocks) = Inr R"
    and len: "length R = nat (prod_list blocks)"
    and m: "block_merge_loop (length blocks) R (enumerate 0 (rev blocks)) = Inr [A]"
    by auto
  have "0 \<le> prod_list blocks" using assms(3) by (intro prod_list_nonneg) force
  then have "int (length R) = prod_list blocks" using len by simp
  then show ?thesis using R m assms(2) by (simp add: block_split_def block_merge_def)
qed

lemma block_split_enum:
  assumes "wf_array A" and "length blocks = ndim A" and "\<And>b. b \<in> set blocks \<Longrightarrow> 1 \<le> b"
  shows "block_split A blocks = Inr (map (sub_block A blocks) (block_indices blocks))"
proof -
  have "block_split_loop [A] (enumerate 0 blocks)
        = Inr (map (sub_block A blocks) (block_indices blocks))"
  proof (rule block_split_loop_enum)
    show "wf_array A" by (rule assms(1))
    show "length blocks \<le> ndim A" using assms(2) by simp
    show "\<And>b. b \<in> set blocks \<Longrightarrow> 0 < b" using assms(3) by force
  qed
  then show ?thesis using assms(2) by (simp add: block_split_def)
qed

lemma product_lists_nth:
  "idx \<in> set (product_lists xss) \<Longrightarrow> ax < length xss \<Longrightarrow> idx ! ax \<in> set (xss ! ax)"
proof (induction xss arbitrary: idx ax)
  case Nil then show ?case by simp
next
  case (Cons xs xss)
  then obtain x p where idx: "idx = x # p" "x \<in> set xs" "p \<in> set (product_lists xss)"
    by auto
  show ?case
  proof (cases ax)
    case 0 then show ?thesis using idx by simp
  next
    case (Suc a)
    then show ?thesis using idx Cons.IH [of p a] Cons.prems(2) by simp
  qed
qed

lemma block_indices_nth:
  assumes "idx \<in> set (block_indices bs)" and "ax < length bs"
  shows "idx ! ax < nat (bs ! ax)"
  using product_lists_nth [of idx "map (\<lambda>nblocks. [0..<nat nblocks]) bs" ax] assms
  by (simp add: block_indices_def)

lemma part_end_le:
  assumes "i < k"
  shows "part_start n k i + part_size n k i \<le> n"
proof -
  have "part_start n k i + part_size n k i = div_point n k (Suc i)"
    by (simp add: part_start_eq_div_point div_point_Suc)
  also have "\<dots> \<le> n" using assms by (intro div_point_le) simp_all
  finally show ?thesis .
qed

lemma foldl_slices_ndim:
  "ndim (foldl (\<lambda>B (ax, nblocks, i). axis_slice ax (lo ax nblocks i) (hi ax nblocks i) B) B0 xs)
   = ndim B0"
  by (induction xs arbitrary: B0) (simp_all add: split_def)

lemma sub_block_ndim [simp]: "ndim (sub_block A bs idx) = ndim A"
  unfolding sub_block_def by (rule foldl_slices_ndim)

lemma sub_block_shape:
  assumes "length idx = length bs" and "\<And>a. a < length bs \<Longrightarrow> idx ! a < nat (bs ! a)"
    and "ax < length bs" and "length bs \<le> ndim A"
  shows "shape (sub_block A bs idx) ! ax = part_size (shape A ! ax) (nat (bs ! ax)) (idx ! ax)"
  using assms
proof (induction bs arbitrary: idx rule: rev_induct)
  case Nil then show ?case by simp
next
  case (snoc b bs)
  from snoc.prems(1) obtain idx' i where idx: "idx = idx' @ [i]" "length idx' = length bs"
    by (cases idx rule: rev_cases) auto
  have i: "i < nat b" using snoc.prems(2) [of "length bs"] idx by (simp add: nth_append)
  let ?n = "shape A ! length bs"
  let ?X = "sub_block A bs idx'"
  have sb: "sub_block A (bs @ [b]) idx =
      axis_slice (length bs) (part_start ?n (nat b) i) (part_start ?n (nat b) i + part_size ?n (nat b) i) ?X"
    using idx by (simp add: sub_block_snoc)
  show ?case
  proof (cases "ax = length bs")
    case True
    have n: "shape ?X ! length bs = ?n" by (simp add: sub_block_shape_above)
    have le: "part_start ?n (nat b) i + part_size ?n (nat b) i \<le> ?n" using i by (rule part_end_le)
    then have d: "min (part_start ?n (nat b) i + part_size ?n (nat b) i) ?n
               - min (part_start ?n (nat b) i) ?n = part_size ?n (nat b) i"
      by simp
    have "ndim ?X = ndim A" by simp
    then have inr: "length bs < length (shape ?X)" using snoc.prems(4) by (simp add: ndim_def)
    have "shape (sub_block A (bs @ [b]) idx) ! length bs = part_size ?n (nat b) i"
      unfolding sb axis_slice_shape n d using inr by simp
    then show ?thesis using True idx by (simp add: nth_append)
  next
    case False
    then have ax: "ax < length bs" using snoc.prems(3) by simp
    have "shape (sub_block A (bs @ [b]) idx) ! ax = shape ?X ! ax"
      unfolding sb using False by (simp add: axis_slice_shape_other)
    also have "\<dots> = part_size (shape A ! ax) (nat (bs ! ax)) (idx' ! ax)"
    proof (rule snoc.IH)
      show "length idx' = length bs" by (rule idx(2))
      show "\<And>a. a < length bs \<Longrightarrow> idx' ! a < nat (bs ! a)"
        using snoc.prems(2) idx by (metis length_append_singleton less_Suc_eq nth_append)
      show "ax < length bs" by (rule ax)
      show "length bs \<le> ndim A" using snoc.prems(4) by simp
    qed
    finally show ?thesis using ax idx by (simp add: nth_append)
  qed
qed

lemma part_size_order:
  "i \<le> j \<Longrightarrow> part_size n k j \<le> part_size n k i \<and> part_size n k i \<le> part_size n k j + 1"
  by (simp add: part_size_def)

lemma part_size_sum: "0 < k \<Longrightarrow> part_start n k k = n"
  by (simp add: part_start_eq_div_point div_point_k)

section \<open>Slabs of a dataset\<close>

lemma select_range_alt:
  "select_range ds dimn lo hi = map (\<lambda>x. (fst x, select_var dimn lo hi (snd x))) ds"
  by (simp add: select_range_def select_var_def split_def)

lemma axis_of_less: "d \<in> set xs \<Longrightarrow> axis_of d xs < length xs"
  by (induction xs) auto

lemma wf_dataset_var:
  assumes "wf_dataset ds" and "x \<in> set ds"
  shows "wf_array (vdata (snd x))" and "length (vdims (snd x)) = length (shape (vdata (snd x)))"
    and "d \<in> set (vdims (snd x)) \<Longrightarrow>
           sizes ds d = Some (shape (vdata (snd x)) ! axis_of d (vdims (snd x)))"
    and "d \<in> set (vdims (snd x)) \<Longrightarrow>
           axis_of d (vdims (snd x)) < length (shape (vdata (snd x)))"
    and "distinct (map fst ds)"
proof -
  from assms have ok: "var_ok (snd x)" and ag: "agrees ds (snd x)"
    by (auto simp: wf_dataset_def list_all_iff)
  show "wf_array (vdata (snd x))" using ok by simp
  show len: "length (vdims (snd x)) = length (shape (vdata (snd x)))"
    using ok by (simp add: ndim_def)
  show "d \<in> set (vdims (snd x)) \<Longrightarrow>
           sizes ds d = Some (shape (vdata (snd x)) ! axis_of d (vdims (snd x)))"
    using ag by (simp add: list_all_iff)
  show "d \<in> set (vdims (snd x)) \<Longrightarrow>
           axis_of d (vdims (snd x)) < length (shape (vdata (snd x)))"
    using axis_of_less [of d "vdims (snd x)"] len by simp
  show "distinct (map fst ds)" using assms(1) by (simp add: wf_dataset_def)
qed

lemma slab_var_select:
  assumes sv: "slab_var dimn m v v'"
    and ax: "dimn \<in> set (vdims v) \<Longrightarrow> axis_of dimn (vdims v) < length (shape (vdata v))"
  shows "slab_var dimn (min hi m - min lo m) v (select_var dimn lo hi v')"
proof (cases "dimn \<in> set (vdims v)")
  case True
  with sv have d: "vdims v' = vdims v"
    and l: "length (shape (vdata v')) = length (shape (vdata v))"
    and s: "(shape (vdata v'))[axis_of dimn (vdims v) := 0] = (shape (vdata v))[axis_of dimn (vdims v) := 0]"
    and m: "shape (vdata v') ! axis_of dimn (vdims v) = m"
    by (simp_all add: slab_var_def)
  have "(shape (vdata v'))[axis_of dimn (vdims v) := min hi m - min lo m, axis_of dimn (vdims v) := 0]
        = (shape (vdata v))[axis_of dimn (vdims v) := 0]"
    using s by simp
  then show ?thesis
    using True d l m ax [OF True]
    by (simp add: slab_var_def select_var_def axis_slice_shape)
next
  case False
  with sv show ?thesis by (simp add: slab_var_def select_var_def)
qed

lemma slab_var_refl:
  assumes "dimn \<in> set (vdims v) \<Longrightarrow> shape (vdata v) ! axis_of dimn (vdims v) = n"
  shows "slab_var dimn n v v"
  using assms by (simp add: slab_var_def)

lemma slab_of_self:
  assumes wf: "wf_dataset ds" and n: "sizes ds dimn = Some n"
  shows "slab_of dimn ds n ds"
  unfolding slab_of_def list_all2_same
proof
  fix x assume x: "x \<in> set ds"
  have "slab_var dimn n (snd x) (snd x)"
    by (rule slab_var_refl) (use wf_dataset_var(3) [OF wf x, of dimn] n in simp)
  then show "fst x = fst x \<and> slab_var dimn n (snd x) (snd x)" by simp
qed

lemma slab_of_nth:
  "slab_of dimn ds m p \<longleftrightarrow>
     length ds = length p \<and>
     (\<forall>i<length ds. fst (p ! i) = fst (ds ! i) \<and> slab_var dimn m (snd (ds ! i)) (snd (p ! i)))"
  by (simp add: slab_of_def list_all2_conv_all_nth)

lemma slab_of_names: "slab_of dimn ds m p \<Longrightarrow> map fst p = map fst ds"
  by (auto simp: slab_of_nth intro: nth_equalityI)

lemma slab_of_select:
  assumes wf: "wf_dataset ds" and sl: "slab_of dimn ds m p"
  shows "slab_of dimn ds (min hi m - min lo m) (select_range p dimn lo hi)"
  unfolding slab_of_nth select_range_alt
proof (intro conjI allI impI)
  show "length ds = length (map (\<lambda>x. (fst x, select_var dimn lo hi (snd x))) p)"
    using sl by (simp add: slab_of_nth)
next
  fix i assume i: "i < length ds"
  then have ip: "i < length p" using sl by (simp add: slab_of_nth)
  show "fst (map (\<lambda>x. (fst x, select_var dimn lo hi (snd x))) p ! i) = fst (ds ! i)"
    using sl i ip by (simp add: slab_of_nth)
  have "slab_var dimn (min hi m - min lo m) (snd (ds ! i)) (select_var dimn lo hi (snd (p ! i)))"
  proof (rule slab_var_select)
    show "slab_var dimn m (snd (ds ! i)) (snd (p ! i))" using sl i by (simp add: slab_of_nth)
    show "dimn \<in> set (vdims (snd (ds ! i))) \<Longrightarrow>
          axis_of dimn (vdims (snd (ds ! i))) < length (shape (vdata (snd (ds ! i))))"
      using wf_dataset_var(4) [OF wf, of "ds ! i" dimn] i by simp
  qed
  then show "slab_var dimn (min hi m - min lo m) (snd (ds ! i))
               (snd (map (\<lambda>x. (fst x, select_var dimn lo hi (snd x))) p ! i))"
    using ip by simp
qed

lemma slab_of_sizes:
  assumes "slab_of dimn ds m p" and "sizes ds dimn = Some n"
  shows "sizes p dimn = Some m"
  using assms unfolding slab_of_def
proof (induction ds p rule: list_all2_induct)
  case Nil then show ?case by simp
next
  case (Cons x xs y ys)
  obtain name v where x: "x = (name, v)" by (cases x)
  obtain name' v' where y: "y = (name', v')" by (cases y)
  show ?case
  proof (cases "dimn \<in> set (vdims v)")
    case True
    then show ?thesis using Cons.hyps(1) by (simp add: x y slab_var_def)
  next
    case False
    then have "sizes xs dimn = Some n" using Cons.prems by (simp add: x)
    then have "sizes ys dimn = Some m" by (rule Cons.IH)
    then show ?thesis using False Cons.hyps(1) by (simp add: x y slab_var_def)
  qed
qed

lemma isel_slab:
  assumes wf: "wf_dataset ds" and n: "sizes ds dimn = Some n" and sl: "slab_of dimn ds m p"
  shows "\<exists>q. isel p dimn start stop = Inr q
           \<and> slab_of dimn ds (min (slice_bound stop m m) m - min (slice_bound start 0 m) m) q"
  using slab_of_sizes [OF sl n] slab_of_select [OF wf sl]
  by (simp add: isel_def)

lemma sequence_err_all_Inr:
  assumes "\<And>x. x \<in> set xs \<Longrightarrow> \<exists>y. f x = Inr y \<and> P x y"
  shows "\<exists>ys. sequence_err (map f xs) = Inr ys \<and> list_all2 P xs ys"
  using assms
proof (induction xs)
  case Nil show ?case by simp
next
  case (Cons x xs)
  from Cons.prems [of x] obtain y where y: "f x = Inr y" "P x y" by auto
  from Cons.IH Cons.prems obtain ys where ys: "sequence_err (map f xs) = Inr ys" "list_all2 P xs ys"
    by auto
  show ?case using y ys by simp
qed

lemma map_of_nth:
  assumes "distinct (map fst p)" and "j < length p"
  shows "map_of p (fst (p ! j)) = Some (snd (p ! j))"
proof -
  have "(fst (p ! j), snd (p ! j)) \<in> set p" using assms(2) by simp
  with assms(1) show ?thesis by (rule map_of_is_SomeI)
qed

lemma slab_sizes_sum:
  assumes "list_all2 (\<lambda>p m. slab_of dimn ds m p) ps ms" and "j < length ds"
    and "dimn \<in> set (vdims (snd (ds ! j)))"
  shows "sum_list (map (\<lambda>p. shape (vdata (snd (p ! j))) ! axis_of dimn (vdims (snd (ds ! j)))) ps)
         = sum_list ms"
  using assms(1)
proof (induction ps ms rule: list_all2_induct)
  case Nil show ?case by simp
next
  case (Cons p ps m ms)
  have "shape (vdata (snd (p ! j))) ! axis_of dimn (vdims (snd (ds ! j))) = m"
    using Cons.hyps(1) assms(2,3) by (simp add: slab_of_nth slab_var_def)
  then show ?case using Cons.IH by simp
qed

lemma concat_var_slabs:
  assumes wf: "wf_dataset ds" and ne: "ps \<noteq> []"
    and sl: "list_all2 (\<lambda>p m. slab_of dimn ds m p) ps ms"
    and j: "j < length ds"
  shows "\<exists>w. concat_var dimn (fst (hd ps ! j)) (snd (hd ps ! j))
                 (map (\<lambda>d. map_of d (fst (hd ps ! j))) ps) = Inr (fst (ds ! j), w)
            \<and> slab_var dimn (sum_list ms) (snd (ds ! j)) w"
proof -
  let ?x = "ds ! j" and ?dz = "hd ps"
  let ?v = "snd ?x" and ?w = "snd (?dz ! j)"
  let ?ax = "axis_of dimn (vdims ?v)"
  have each: "\<exists>m. slab_of dimn ds m p" if "p \<in> set ps" for p
    using sl that by (auto simp: list_all2_conv_all_nth in_set_conv_nth)
  have nm: "fst (p ! j) = fst ?x" and lp: "length p = length ds"
    and sv: "\<exists>m. slab_var dimn m ?v (snd (p ! j))"
    and mo: "map_of p (fst ?x) = Some (snd (p ! j))" if "p \<in> set ps" for p
  proof -
    from each [OF that] obtain m where m: "slab_of dimn ds m p" by auto
    show nm: "fst (p ! j) = fst ?x" and lp: "length p = length ds"
      using m j by (simp_all add: slab_of_nth)
    show "\<exists>m. slab_var dimn m ?v (snd (p ! j))" using m j by (auto simp: slab_of_nth)
    have "distinct (map fst p)"
      using slab_of_names [OF m] wf by (simp add: wf_dataset_def)
    from map_of_nth [OF this, of j] nm lp j show "map_of p (fst ?x) = Some (snd (p ! j))"
      by simp
  qed
  have d0: "?dz \<in> set ps" using ne by simp
  have name: "fst (?dz ! j) = fst ?x" using nm [OF d0] .
  have vs: "map (\<lambda>d. map_of d (fst (?dz ! j))) ps = map (\<lambda>p. Some (snd (p ! j))) ps"
    unfolding name by (rule map_cong [OF refl]) (rule mo)
  have dims: "vdims (snd (p ! j)) = vdims ?v" if "p \<in> set ps" for p
    using sv [OF that] by (auto simp: slab_var_def)
  have dims0: "vdims ?w = vdims ?v" using dims [OF d0] .
  have c1: "\<not> list_ex (\<lambda>v. case v of None \<Rightarrow> True | Some w \<Rightarrow> vdims w \<noteq> vdims ?v)
              (map (\<lambda>p. Some (snd (p ! j))) ps)"
    using dims by (simp add: list_ex_iff)
  show ?thesis
  proof (cases "dimn \<in> set (vdims ?v)")
    case True
    have xin: "?x \<in> set ds" using j by simp
    have ax: "?ax < length (shape (vdata ?v))"
      using wf_dataset_var(4) [OF wf xin True] .
    let ?arrs = "map (\<lambda>p. vdata (snd (p ! j))) ps"
    have arrs_ne: "?arrs \<noteq> []" using ne by simp
    have cond: "(shape b)[?ax := 0] = (shape (vdata ?v))[?ax := 0]
                \<and> length (shape b) = length (shape (vdata ?v))" if "b \<in> set ?arrs" for b
    proof -
      from that obtain p where p: "p \<in> set ps" "b = vdata (snd (p ! j))" by auto
      from sv [OF p(1)] True show ?thesis by (auto simp: slab_var_def p(2))
    qed
    note conc = concatenate_ok [OF arrs_ne cond ax]
    have total: "sum_list (map (\<lambda>b. shape b ! ?ax) ?arrs) = sum_list ms"
      using slab_sizes_sum [OF sl j True] by (simp add: comp_def)
    obtain a where a: "concatenate ?arrs ?ax = Inr a"
      and sha: "shape a = (shape (vdata ?v))[?ax := sum_list ms]"
      using conc total by simp
    have "concat_var dimn (fst (?dz ! j)) ?w (map (\<lambda>d. map_of d (fst (?dz ! j))) ps)
          = Inr (fst ?x, ?w\<lparr>vdata := a\<rparr>)"
      unfolding vs concat_var_def using c1 True dims0 a name by (simp add: comp_def)
    moreover have "slab_var dimn (sum_list ms) ?v (?w\<lparr>vdata := a\<rparr>)"
      using True dims0 sha ax by (simp add: slab_var_def)
    ultimately show ?thesis by blast
  next
    case False
    have same: "snd (p ! j) = ?v" if "p \<in> set ps" for p
      using sv [OF that] False by (auto simp: slab_var_def)
    have c2: "\<not> list_ex (\<lambda>v. v \<noteq> Some ?w) (map (\<lambda>p. Some (snd (p ! j))) ps)"
      using same same [OF d0] by (simp add: list_ex_iff)
    have "concat_var dimn (fst (?dz ! j)) ?w (map (\<lambda>d. map_of d (fst (?dz ! j))) ps)
          = Inr (fst ?x, ?w)"
      unfolding vs concat_var_def using c1 c2 False dims0 name by simp
    moreover have "slab_var dimn (sum_list ms) ?v ?w"
      using False same [OF d0] by (simp add: slab_var_def)
    ultimately show ?thesis by blast
  qed
qed

lemma xr_concat_slabs:
  assumes wf: "wf_dataset ds" and n: "sizes ds dimn = Some n" and ne: "ps \<noteq> []"
    and sl: "list_all2 (\<lambda>p m. slab_of dimn ds m p) ps ms"
  shows "\<exists>r. xr_concat ps dimn = Inr r \<and> slab_of dimn ds (sum_list ms) r"
proof -
  obtain d0 rest where ps: "ps = d0 # rest" using ne by (cases ps) auto
  have each: "\<exists>m. slab_of dimn ds m p" if "p \<in> set ps" for p
    using sl that by (auto simp: list_all2_conv_all_nth in_set_conv_nth)
  have names: "map fst p = map fst ds" if "p \<in> set ps" for p
    using each [OF that] slab_of_names by blast
  have "set (map fst d) = set (map fst d0)" if "d \<in> set rest" for d
  proof -
    have "map fst d = map fst ds" "map fst d0 = map fst ds" using names that ps by simp_all
    then show ?thesis by (simp only:)
  qed
  then have c1: "\<not> list_ex (\<lambda>d. set (map fst d) \<noteq> set (map fst d0)) rest"
    unfolding list_ex_iff by blast
  have c2: "sizes d0 dimn \<noteq> None"
    using each [of d0] slab_of_sizes [OF _ n] ps by auto
  have "map fst d0 = map fst ds" using names ps by simp
  then have "length (map fst d0) = length (map fst ds)" by (simp only:)
  then have len0: "length d0 = length ds" by simp
  let ?F = "\<lambda>(name, v0). concat_var dimn name v0 (map (\<lambda>d. map_of d name) ps)"
  have "\<exists>ys. sequence_err (map (\<lambda>j. ?F (d0 ! j)) [0..<length ds]) = Inr ys
          \<and> list_all2 (\<lambda>j y. fst y = fst (ds ! j) \<and> slab_var dimn (sum_list ms) (snd (ds ! j)) (snd y))
               [0..<length ds] ys"
  proof (rule sequence_err_all_Inr)
    fix j assume "j \<in> set [0..<length ds]"
    then have j: "j < length ds" by simp
    from concat_var_slabs [OF wf ne sl j] ps
    show "\<exists>y. ?F (d0 ! j) = Inr y \<and> fst y = fst (ds ! j)
              \<and> slab_var dimn (sum_list ms) (snd (ds ! j)) (snd y)"
      by (auto simp: split_def)
  qed
  then obtain ys where ys: "sequence_err (map (\<lambda>j. ?F (d0 ! j)) [0..<length ds]) = Inr ys"
    and rel: "list_all2 (\<lambda>j y. fst y = fst (ds ! j) \<and> slab_var dimn (sum_list ms) (snd (ds ! j)) (snd y))
               [0..<length ds] ys"
    by blast
  have "map ?F d0 = map ?F (map ((!) d0) [0..<length d0])" by (simp only: map_nth)
  also have "\<dots> = map (\<lambda>j. ?F (d0 ! j)) [0..<length ds]"
    by (simp only: map_map comp_def len0)
  finally have "map (\<lambda>j. ?F (d0 ! j)) [0..<length ds] = map ?F d0" by (rule sym)
  then have "xr_concat ps dimn = Inr ys"
    using ys c1 c2 by (simp add: xr_concat_def ps)
  moreover have "slab_of dimn ds (sum_list ms) ys"
    using rel by (simp add: slab_of_nth list_all2_conv_all_nth)
  ultimately show ?thesis by blast
qed

section \<open>xr_split and xr_merge on well-formed datasets\<close>

lemma axis_slice_clamp:
  "shape A ! ax = n \<Longrightarrow> axis_slice ax (min lo n) (min hi n) A = axis_slice ax lo hi A"
  by (simp add: axis_slice_def Let_def)

lemma select_range_clamp:
  assumes wf: "wf_dataset ds" and n: "sizes ds dimn = Some n"
  shows "select_range ds dimn (min lo n) (min hi n) = select_range ds dimn lo hi"
  unfolding select_range_alt
proof (rule map_cong [OF refl])
  fix x assume x: "x \<in> set ds"
  show "(fst x, select_var dimn (min lo n) (min hi n) (snd x)) = (fst x, select_var dimn lo hi (snd x))"
  proof (cases "dimn \<in> set (vdims (snd x))")
    case True
    from wf_dataset_var(3) [OF wf x True] n
    have "shape (vdata (snd x)) ! axis_of dimn (vdims (snd x)) = n" by simp
    then show ?thesis using True by (simp add: select_var_def axis_slice_clamp)
  next
    case False then show ?thesis by (simp add: select_var_def)
  qed
qed

lemma chunksize_nonneg: "0 < nchunks \<Longrightarrow> 0 \<le> chunksize_of n nchunks"
proof -
  assume "0 < nchunks"
  then have "0 \<le> real n / real_of_int nchunks" by simp
  then have "- 1 < real n / real_of_int nchunks" by linarith
  then show ?thesis by (simp add: chunksize_of_def)
qed

lemma isel_nonneg:
  assumes wf: "wf_dataset ds" and n: "sizes ds dimn = Some n" and "0 \<le> lo" "0 \<le> hi"
  shows "isel ds dimn (Some lo) (Some hi) = Inr (select_range ds dimn (nat lo) (nat hi))"
proof -
  have "nat (min lo (int n)) = min (nat lo) n" "nat (min hi (int n)) = min (nat hi) n"
    using assms(3,4) by arith+
  then have "slice_bound (Some lo) 0 n = min (nat lo) n" "slice_bound (Some hi) n n = min (nat hi) n"
    using assms(3,4) by (simp_all add: slice_bound_def)
  then show ?thesis using n select_range_clamp [OF wf n] by (simp add: isel_def)
qed

lemma xr_split_eq:
  assumes wf: "wf_dataset ds" and n: "sizes ds dimn = Some n"
    and c: "1 \<le> nchunks" and b: "0 \<le> buffer"
  shows "xr_split ds dimn nchunks buffer =
         Inr (map (\<lambda>i. select_range ds dimn
                         (nat (max (int i * chunksize_of n nchunks - buffer) 0))
                         (nat (min ((int i + 1) * chunksize_of n nchunks + buffer) (int n))))
                  [0..<nat nchunks])"
proof -
  have cs: "0 \<le> chunksize_of n nchunks" using c by (intro chunksize_nonneg) simp
  have "sequence_err
          (map (\<lambda>i. isel ds dimn (Some (max (int i * chunksize_of n nchunks - buffer) 0))
                               (Some (min ((int i + 1) * chunksize_of n nchunks + buffer) (int n))))
               [0..<nat nchunks])
        = Inr (map (\<lambda>i. select_range ds dimn
                         (nat (max (int i * chunksize_of n nchunks - buffer) 0))
                         (nat (min ((int i + 1) * chunksize_of n nchunks + buffer) (int n))))
                  [0..<nat nchunks])"
  proof (rule sequence_err_map_Inr)
    fix i
    have "0 \<le> (int i + 1) * chunksize_of n nchunks" using cs by simp
    then have "0 \<le> min ((int i + 1) * chunksize_of n nchunks + buffer) (int n)" using b by simp
    then show "isel ds dimn (Some (max (int i * chunksize_of n nchunks - buffer) 0))
                 (Some (min ((int i + 1) * chunksize_of n nchunks + buffer) (int n)))
          = Inr (select_range ds dimn
                         (nat (max (int i * chunksize_of n nchunks - buffer) 0))
                         (nat (min ((int i + 1) * chunksize_of n nchunks + buffer) (int n))))"
      by (intro isel_nonneg [OF wf n]) simp_all
  qed
  then show ?thesis using n c by (simp add: xr_split_def Let_def)
qed


lemma slabs_exist:
  assumes "\<And>p. p \<in> set ps \<Longrightarrow> \<exists>m. slab_of dimn ds m p"
  shows "\<exists>ms. list_all2 (\<lambda>p m. slab_of dimn ds m p) ps ms"
  using assms
proof (induction ps)
  case Nil show ?case by simp
next
  case (Cons p ps)
  from Cons.prems [of p] obtain m where m: "slab_of dimn ds m p" by auto
  from Cons.IH Cons.prems obtain ms where "list_all2 (\<lambda>p m. slab_of dimn ds m p) ps ms" by auto
  with m have "list_all2 (\<lambda>p m. slab_of dimn ds m p) (p # ps) (m # ms)" by simp
  then show ?case by blast
qed

lemma xr_concat_some_slabs:
  assumes wf: "wf_dataset ds" and n: "sizes ds dimn = Some n" and ne: "ps \<noteq> []"
    and sl: "\<And>p. p \<in> set ps \<Longrightarrow> \<exists>m. slab_of dimn ds m p"
  shows "\<exists>r m. xr_concat ps dimn = Inr r \<and> slab_of dimn ds m r"
proof -
  from slabs_exist [OF sl] obtain ms where "list_all2 (\<lambda>p m. slab_of dimn ds m p) ps ms"
    by blast
  from xr_concat_slabs [OF wf n ne this] show ?thesis by blast
qed

lemma xr_merge_slabs:
  assumes wf: "wf_dataset ds" and n: "sizes ds dimn = Some n" and ne: "ps \<noteq> []"
    and sl: "\<And>p. p \<in> set ps \<Longrightarrow> \<exists>m. slab_of dimn ds m p"
  shows "\<exists>r m. xr_merge ps dimn buffer = Inr r \<and> slab_of dimn ds m r"
proof (cases "buffer > 0")
  case False
  then show ?thesis using xr_concat_some_slabs [OF wf n ne sl] by (simp add: xr_merge_def)
next
  case True
  obtain d0 rest where ps: "ps = d0 # rest" using ne by (cases ps) auto
  from sl [of d0] ps obtain m0 where "slab_of dimn ds m0 d0" by auto
  from isel_slab [OF wf n this] obtain first mf
    where first: "isel d0 dimn None (Some (- buffer)) = Inr first" "slab_of dimn ds mf first"
    by blast
  have "last ps \<in> set ps" using ne by simp
  from sl [OF this] obtain ml where "slab_of dimn ds ml (last ps)" by auto
  from isel_slab [OF wf n this] obtain lst me
    where lst: "isel (last ps) dimn (Some buffer) None = Inr lst" "slab_of dimn ds me lst"
    by blast
  have "\<exists>ys. sequence_err (map (\<lambda>d. isel d dimn (Some buffer) (Some (- buffer))) (butlast rest))
               = Inr ys
           \<and> list_all2 (\<lambda>d q. \<exists>m. slab_of dimn ds m q) (butlast rest) ys"
  proof (rule sequence_err_all_Inr)
    fix d assume "d \<in> set (butlast rest)"
    then have "d \<in> set ps" using ps by (auto dest: in_set_butlastD)
    from sl [OF this] obtain m where "slab_of dimn ds m d" by auto
    from isel_slab [OF wf n this]
    show "\<exists>y. isel d dimn (Some buffer) (Some (- buffer)) = Inr y \<and> (\<exists>m. slab_of dimn ds m y)"
      by blast
  qed
  then obtain middle where
    mid: "sequence_err (map (\<lambda>d. isel d dimn (Some buffer) (Some (- buffer))) (butlast rest))
          = Inr middle"
    and mids: "list_all2 (\<lambda>d q. \<exists>m. slab_of dimn ds m q) (butlast rest) middle"
    by blast
  have midsl: "\<exists>m. slab_of dimn ds m q" if "q \<in> set middle" for q
    using mids that by (auto simp: list_all2_conv_all_nth in_set_conv_nth)
  have "\<exists>r m. xr_concat ([first] @ middle @ [lst]) dimn = Inr r \<and> slab_of dimn ds m r"
  proof (rule xr_concat_some_slabs [OF wf n])
    show "[first] @ middle @ [lst] \<noteq> []" by simp
    fix p assume "p \<in> set ([first] @ middle @ [lst])"
    then show "\<exists>m. slab_of dimn ds m p" using first(2) lst(2) midsl by auto
  qed
  then show ?thesis using True first(1) lst(1) mid by (simp add: xr_merge_def ps)
qed

lemma xr_split_slabs:
  assumes wf: "wf_dataset ds" and n: "sizes ds dimn = Some n"
    and c: "1 \<le> nchunks" and b: "0 \<le> buffer"
  shows "\<exists>parts. xr_split ds dimn nchunks buffer = Inr parts \<and> length parts = nat nchunks
            \<and> (\<forall>p \<in> set parts. \<exists>m. slab_of dimn ds m p)"
proof -
  have "\<exists>m. slab_of dimn ds m (select_range ds dimn lo hi)" for lo hi
    using slab_of_select [OF wf slab_of_self [OF wf n]] by blast
  then show ?thesis unfolding xr_split_eq [OF assms] by auto
qed

lemma split_then_xr_merge:
  assumes "wf_dataset ds" and "sizes ds dimn = Some n" and "1 \<le> nchunks" and "0 \<le> buffer"
  shows "\<exists>parts r. xr_split ds dimn nchunks buffer = Inr parts \<and> length parts = nat nchunks
            \<and> xr_merge parts dimn buffer = Inr r"
proof -
  from xr_split_slabs [OF assms] obtain parts
    where p: "xr_split ds dimn nchunks buffer = Inr parts" "length parts = nat nchunks"
      and sl: "\<And>p. p \<in> set parts \<Longrightarrow> \<exists>m. slab_of dimn ds m p"
    by blast
  have "parts \<noteq> []" using p(2) assms(3) by auto
  from xr_merge_slabs [OF assms(1,2) this sl] p show ?thesis by blast
qed



lemma xr_merge_single:
  assumes wf: "wf_dataset ds" and n: "sizes ds dimn = Some n" and b: "0 < buffer"
  shows "\<exists>r. xr_merge [ds] dimn buffer = Inr r
           \<and> xr_concat [select_range ds dimn 0 (n - nat buffer),
                         select_range ds dimn (nat buffer) n] dimn = Inr r
           \<and> map_option int (sizes r dimn) = Some (2 * max (int n - buffer) 0)"
proof -
  let ?first = "select_range ds dimn 0 (n - nat buffer)"
  let ?last = "select_range ds dimn (nat buffer) n"
  have "nat (max (- buffer + int n) 0) = n - nat buffer" "nat (min buffer (int n)) = min (nat buffer) n"
    using b by arith+
  then have sb1: "slice_bound (Some (- buffer)) n n = n - nat buffer"
    and sb2: "slice_bound (Some buffer) 0 n = min (nat buffer) n"
    using b by (simp_all add: slice_bound_def)
  have sb0: "slice_bound None 0 n = 0" and sb3: "slice_bound None n n = n"
    by (simp_all add: slice_bound_def)
  have i1: "isel ds dimn None (Some (- buffer)) = Inr ?first"
    using n by (simp add: isel_def sb0 sb1)
  have cl: "select_range ds dimn (min (nat buffer) n) (min n n) = ?last"
    by (rule select_range_clamp [OF wf n])
  have i2: "isel ds dimn (Some buffer) None = Inr ?last"
    using n cl by (simp add: isel_def sb2 sb3)
  have mg: "xr_merge [ds] dimn buffer = xr_concat [?first, ?last] dimn"
    using b i1 i2 by (simp add: xr_merge_def)
  have self: "slab_of dimn ds n ds" by (rule slab_of_self [OF wf n])
  have s1: "slab_of dimn ds (min (n - nat buffer) n - min 0 n) ?first"
    by (rule slab_of_select [OF wf self])
  have s2: "slab_of dimn ds (min n n - min (nat buffer) n) ?last"
    by (rule slab_of_select [OF wf self])
  have "list_all2 (\<lambda>p m. slab_of dimn ds m p) [?first, ?last]
          [min (n - nat buffer) n - min 0 n, min n n - min (nat buffer) n]"
    using s1 s2 by simp
  from xr_concat_slabs [OF wf n _ this] obtain r
    where r: "xr_concat [?first, ?last] dimn = Inr r"
      and sl: "slab_of dimn ds
                 (sum_list [min (n - nat buffer) n - min 0 n, min n n - min (nat buffer) n]) r"
    by auto
  have "sizes r dimn
        = Some (sum_list [min (n - nat buffer) n - min 0 n, min n n - min (nat buffer) n])"
    by (rule slab_of_sizes [OF sl n])
  moreover have "int (sum_list [min (n - nat buffer) n - min 0 n, min n n - min (nat buffer) n])
        = 2 * max (int n - buffer) 0"
    using b by (simp add: min_def)
  ultimately have "map_option int (sizes r dimn) = Some (2 * max (int n - buffer) 0)"
    by (simp only: option.map)
  with mg r show ?thesis by simp
qed

section \<open>Test containers\<close>

lemma wf_plain: "wf_dataset (plain_dataset d n)"
  by (simp add: wf_dataset_def plain_dataset_def wf_array_def ndim_def)

lemma sizes_plain: "sizes (plain_dataset d n) d = Some n"
  by (simp add: plain_dataset_def)


lemma wf_coord: "d \<noteq> ''v'' \<Longrightarrow> wf_dataset (coord_dataset d n)"
  by (auto simp: wf_dataset_def coord_dataset_def wf_array_def ndim_def)

section \<open>Defaults of parallel\<close>

lemma parallel_default_dim:
  "parallel fn None nchunks mg buffer cmp cpu_count
     = parallel fn (Some ''lat'') nchunks mg buffer cmp cpu_count"
  by (simp add: parallel_def)

lemma parallel_default_chunks:
  "parallel fn dimn None mg buffer cmp cpu_count
     = parallel fn dimn (Some cpu_count) mg buffer cmp cpu_count"
  by (simp add: parallel_def)

lemma wrapper_default_guard:
  assumes "\<not> contains ds ''lat''"
  shows "wrapper (parallel fn None nchunks mg buffer cmp cpu_count) tasks ds
         = (Inl (ValueError ''The dataset has no dimension 'lat'.''), tasks)"
  using assms by (simp add: wrapper_def parallel_def)

lemma wrapper_default_split:
  assumes "wf_dataset ds" and "contains ds ''lat''" and "sizes ds ''lat'' = Some n"
    and "1 \<le> cpu_count" and "0 \<le> buffer"
  shows "\<exists>parts. xr_split ds ''lat'' cpu_count buffer = Inr parts
          \<and> length parts = nat cpu_count
          \<and> wrapper (parallel fn None None mg buffer cmp cpu_count) tasks ds
             = (if cmp
                then compute_graph fn (if mg then MergeNode parts ''lat'' buffer else ListNode parts)
                else Inr (Deferred (if mg then MergeNode parts ''lat'' buffer else ListNode parts)),
                tasks + nat cpu_count + 1)"
proof -
  from xr_split_slabs [OF assms(1,3,4,5)] obtain parts
    where p: "xr_split ds ''lat'' cpu_count buffer = Inr parts" "length parts = nat cpu_count"
    by blast
  have "wrapper (parallel fn None None mg buffer cmp cpu_count) tasks ds
        = (if cmp
           then compute_graph fn (if mg then MergeNode parts ''lat'' buffer else ListNode parts)
           else Inr (Deferred (if mg then MergeNode parts ''lat'' buffer else ListNode parts)),
           tasks + nat cpu_count + 1)"
    using assms(2,3,4) p by (simp add: wrapper_def parallel_def rechunk_def Let_def)
  with p show ?thesis by blast
qed

section \<open>Claims\<close>

text \<open>
  Claim C1.  Windowed round trip, evaluated where it fails.  A container with one variable
  over a dimension \<open>x\<close> of size 10, 3 chunks and buffer 3 (below the chunk size 4):
  \<open>xr_split\<close> yields the ranges \<open>[0, 7)\<close>, \<open>[1, 10)\<close>, \<open>[5, 10)\<close> and \<open>xr_merge\<close> returns a
  container of size 9 that lacks index 7.  A container of size 3, 1 chunk and buffer 1
  (below the chunk size 3): \<open>xr_merge\<close> returns a container of size 4.
\<close>

theorem xr_roundtrip_fails:
  "chunksize_of 10 3 = 4
   \<and> (case xr_split (plain_dataset ''x'' 10) ''x'' 3 3 of
         Inl e \<Rightarrow> Inl e | Inr parts \<Rightarrow> xr_merge parts ''x'' 3)
      = Inr [(''v'', \<lparr>vdims = [''x''],
                      vdata = \<lparr>shape = [9], elems = [0, 1, 2, 3, 4, 5, 6, 8, 9]\<rparr>\<rparr>)]
   \<and> chunksize_of 3 1 = 3
   \<and> (case xr_split (plain_dataset ''x'' 3) ''x'' 1 1 of
         Inl e \<Rightarrow> Inl e | Inr parts \<Rightarrow> xr_merge parts ''x'' 1)
      = Inr [(''v'', \<lparr>vdims = [''x''], vdata = \<lparr>shape = [4], elems = [0, 1, 1, 2]\<rparr>\<rparr>)]"
  by code_simp

text \<open>
  Claim C2.  Block round trip: for every array \<open>A\<close> (of any rank, with axes of any size,
  zero included) and every \<open>blocks\<close> with one entry per axis of \<open>A\<close>, each at least 1,
  \<open>block_split\<close> returns a list of blocks and \<open>block_merge\<close> of that list with the same
  \<open>blocks\<close> returns exactly \<open>A\<close>: the same shape and the same elements.  The block counts
  need not divide the axis sizes.
\<close>

theorem block_split_merge_roundtrip:
  assumes "wf_array A" and "length blocks = ndim A" and "\<And>b. b \<in> set blocks \<Longrightarrow> 1 \<le> b"
  shows "\<exists>bl. block_split A blocks = Inr bl \<and> block_merge bl blocks = Inr A"
proof -
  have "\<exists>R. block_split_loop [A] (enumerate 0 blocks) = Inr R
           \<and> (\<forall>y\<in>set R. wf_array y \<and> ndim y = ndim A)
           \<and> length R = length [A] * nat (prod_list blocks)
           \<and> block_merge_loop (length blocks) R (enumerate 0 (rev blocks)) = Inr [A]"
  proof (rule split_merge_loops)
    show "\<And>x. x \<in> set [A] \<Longrightarrow> wf_array x \<and> ndim x = ndim A" using assms(1) by simp
    show "length blocks \<le> ndim A" using assms(2) by simp
    show "\<And>b. b \<in> set blocks \<Longrightarrow> 0 < b" using assms(3) by force
  qed
  then obtain R where R: "block_split_loop [A] (enumerate 0 blocks) = Inr R"
    and len: "length R = nat (prod_list blocks)"
    and m: "block_merge_loop (length blocks) R (enumerate 0 (rev blocks)) = Inr [A]"
    by auto
  have "0 \<le> prod_list blocks" using assms(3) by (intro prod_list_nonneg) force
  then have "int (length R) = prod_list blocks" using len by simp
  then show ?thesis using R m assms(2) by (simp add: block_split_def block_merge_def)
qed

theorem block_split_merge_roundtrip_witness:
  "wf_array \<lparr>shape = [2, 5], elems = [0..<10::nat]\<rparr>
   \<and> length [2, 3 :: int] = ndim \<lparr>shape = [2, 5], elems = [0..<10::nat]\<rparr>
   \<and> list_all (\<lambda>b. 1 \<le> b) [2, 3 :: int]
   \<and> (\<exists>bl. block_split \<lparr>shape = [2, 5], elems = [0..<10::nat]\<rparr> [2, 3] = Inr bl
          \<and> block_merge bl [2, 3] = Inr \<lparr>shape = [2, 5], elems = [0..<10::nat]\<rparr>)"
proof -
  have wf: "wf_array \<lparr>shape = [2, 5], elems = [0..<10::nat]\<rparr>"
    by (simp add: wf_array_def)
  have len: "length [2, 3 :: int] = ndim \<lparr>shape = [2, 5], elems = [0..<10::nat]\<rparr>"
    by (simp add: ndim_def)
  have pos: "\<And>b. b \<in> set [2, 3 :: int] \<Longrightarrow> 1 \<le> b" by auto
  from block_split_merge_roundtrip [OF wf len pos] wf len show ?thesis by simp
qed






text \<open>
  Claim C5, evaluated where it fails.  The container has the dimension \<open>lat\<close> (of size 3)
  but no variable named \<open>lat\<close>: the guard \<open>dim not in ds\<close> rejects it with the message
  that the dataset has no such dimension, before any task is created.  The same call on
  the container with a coordinate variable \<open>lat\<close> goes through.
\<close>

theorem dimension_present_but_rejected:
  "sizes (plain_dataset ''lat'' 3) ''lat'' = Some 3
   \<and> wrapper (parallel Inr (Some ''lat'') (Some 1) True 0 True 4) 0 (plain_dataset ''lat'' 3)
      = (Inl (ValueError ''The dataset has no dimension 'lat'.''), 0)
   \<and> wrapper (parallel Inr (Some ''lat'') (Some 1) True 0 True 4) 0 (coord_dataset ''lat'' 3)
      = (Inr (Merged (coord_dataset ''lat'' 3)), 2)"
  by code_simp

text \<open>
  Claim C6, as stated, fails: with 10 elements and 3 chunks the chunk size is 4, and with
  buffer 4 both \<open>xr_split\<close> and \<open>xr_merge\<close> return a value and raise nothing.
\<close>

theorem buffer_not_guarded:
  "chunksize_of 10 3 \<le> 4
   \<and> xr_split (plain_dataset ''x'' 10) ''x'' 3 4
      = Inr [[(''v'', \<lparr>vdims = [''x''], vdata = \<lparr>shape = [8], elems = [0, 1, 2, 3, 4, 5, 6, 7]\<rparr>\<rparr>)],
             [(''v'', \<lparr>vdims = [''x''], vdata = \<lparr>shape = [10], elems = [0, 1, 2, 3, 4, 5, 6, 7, 8, 9]\<rparr>\<rparr>)],
             [(''v'', \<lparr>vdims = [''x''], vdata = \<lparr>shape = [6], elems = [4, 5, 6, 7, 8, 9]\<rparr>\<rparr>)]]
   \<and> xr_merge
        [[(''v'', \<lparr>vdims = [''x''], vdata = \<lparr>shape = [8], elems = [0, 1, 2, 3, 4, 5, 6, 7 :: nat]\<rparr>\<rparr>)],
         [(''v'', \<lparr>vdims = [''x''], vdata = \<lparr>shape = [10], elems = [0, 1, 2, 3, 4, 5, 6, 7, 8, 9]\<rparr>\<rparr>)],
         [(''v'', \<lparr>vdims = [''x''], vdata = \<lparr>shape = [6], elems = [4, 5, 6, 7, 8, 9]\<rparr>\<rparr>)]] ''x'' 4
      = Inr [(''v'', \<lparr>vdims = [''x''], vdata = \<lparr>shape = [8], elems = [0, 1, 2, 3, 4, 5, 8, 9]\<rparr>\<rparr>)]"
  by code_simp

text \<open>
  Claim C6, amended.  Neither \<open>xr_split\<close> nor \<open>xr_merge\<close> guards the buffer: for every
  container with the dimension, every \<open>nchunks \<ge> 1\<close> and every buffer at least the chunk
  size, \<open>xr_split\<close> returns \<open>nchunks\<close> sub-containers and \<open>xr_merge\<close> of them returns a
  container; no error is raised.
\<close>

theorem split_merge_without_guard:
  assumes "wf_dataset ds" and "sizes ds dimn = Some n" and "1 \<le> nchunks"
    and "chunksize_of n nchunks \<le> buffer"
  shows "\<exists>parts r. xr_split ds dimn nchunks buffer = Inr parts \<and> length parts = nat nchunks
            \<and> xr_merge parts dimn buffer = Inr r"
proof -
  have "0 \<le> chunksize_of n nchunks" using assms(3) by (intro chunksize_nonneg) simp
  then have "0 \<le> buffer" using assms(4) by simp
  from split_then_xr_merge [OF assms(1-3) this] show ?thesis .
qed

theorem split_merge_without_guard_witness:
  "wf_dataset (plain_dataset ''x'' 10) \<and> sizes (plain_dataset ''x'' 10) ''x'' = Some 10
   \<and> (1::int) \<le> 3 \<and> chunksize_of 10 3 \<le> 4
   \<and> (\<exists>parts r. xr_split (plain_dataset ''x'' 10) ''x'' 3 4 = Inr parts \<and> length parts = nat 3
            \<and> xr_merge parts ''x'' 4 = Inr r)"
proof -
  have h: "wf_dataset (plain_dataset ''x'' 10)" "sizes (plain_dataset ''x'' 10) ''x'' = Some 10"
    "(1::int) \<le> 3" "chunksize_of 10 3 \<le> 4"
    by (simp_all add: wf_plain sizes_plain chunksize_of_def)
  from split_merge_without_guard [OF h] h show ?thesis by simp
qed

text \<open>
  Claim C7.  Uneven partition: \<open>block_split\<close> divides every axis of size \<open>n\<close> with block
  count \<open>k \<ge> 1\<close> into \<open>k\<close> contiguous parts, part \<open>i\<close> being the index range that starts
  where the parts before it end (\<open>part_start\<close>) and has \<open>n div k\<close> elements, plus one if
  \<open>i < n mod k\<close> (\<open>part_size\<close>).  So the sizes of two parts differ by at most 1, an
  earlier part is never smaller than a later one, and the sizes add up to \<open>n\<close>.  The block
  with block index \<open>idx\<close> has, on every axis, the size of the part \<open>idx ! ax\<close>, and
  \<open>block_merge\<close> of the blocks returns the array.
\<close>

theorem uneven_partition:
  assumes "wf_array A" and "length blocks = ndim A" and "\<And>b. b \<in> set blocks \<Longrightarrow> 1 \<le> b"
  shows "\<exists>bl. block_split A blocks = Inr bl
            \<and> bl = map (sub_block A blocks) (block_indices blocks)
            \<and> (\<forall>idx \<in> set (block_indices blocks). \<forall>ax < ndim A.
                  shape (sub_block A blocks idx) ! ax
                    = part_size (shape A ! ax) (nat (blocks ! ax)) (idx ! ax))
            \<and> (\<forall>n k i j. i \<le> j \<longrightarrow>
                  part_size n k j \<le> part_size n k i \<and> part_size n k i \<le> part_size n k j + 1)
            \<and> (\<forall>n k. 0 < k \<longrightarrow> part_start n k k = n)
            \<and> block_merge bl blocks = Inr A"
proof -
  have shp: "shape (sub_block A blocks idx) ! ax
        = part_size (shape A ! ax) (nat (blocks ! ax)) (idx ! ax)"
    if "idx \<in> set (block_indices blocks)" "ax < ndim A" for idx ax
  proof (rule sub_block_shape)
    show "length idx = length blocks" using that(1) by (rule block_indices_length)
    show "\<And>a. a < length blocks \<Longrightarrow> idx ! a < nat (blocks ! a)"
      using that(1) by (rule block_indices_nth)
    show "ax < length blocks" using that(2) assms(2) by simp
    show "length blocks \<le> ndim A" using assms(2) by simp
  qed
  from split_then_merge [OF assms] block_split_enum [OF assms] shp part_size_order part_size_sum
  show ?thesis by auto
qed

theorem uneven_partition_witness:
  "wf_array \<lparr>shape = [5], elems = [0..<5::nat]\<rparr>
   \<and> length [2 :: int] = ndim \<lparr>shape = [5], elems = [0..<5::nat]\<rparr>
   \<and> list_all (\<lambda>b. 1 \<le> b) [2 :: int]
   \<and> (\<exists>bl. block_split \<lparr>shape = [5], elems = [0..<5::nat]\<rparr> [2] = Inr bl
          \<and> map (\<lambda>B. shape B ! 0) bl = [3, 2]
          \<and> block_merge bl [2] = Inr \<lparr>shape = [5], elems = [0..<5::nat]\<rparr>)"
proof -
  let ?A = "\<lparr>shape = [5], elems = [0..<5::nat]\<rparr>"
  have wf: "wf_array ?A" by (simp add: wf_array_def)
  have len: "length [2 :: int] = ndim ?A" by (simp add: ndim_def)
  have pos: "\<And>b. b \<in> set [2 :: int] \<Longrightarrow> 1 \<le> b" by auto
  have bi: "block_indices [2] = [[0], [1]]" by (simp add: block_indices_def upt_rec)
  from uneven_partition [OF wf len pos] obtain bl where
    bl: "block_split ?A [2] = Inr bl" "bl = map (sub_block ?A [2]) (block_indices [2])"
    and sh: "\<forall>idx \<in> set (block_indices [2]). \<forall>ax < ndim ?A.
                  shape (sub_block ?A [2] idx) ! ax
                    = part_size (shape ?A ! ax) (nat ([2] ! ax)) (idx ! ax)"
    and mg: "block_merge bl [2] = Inr ?A"
    by blast
  have "map (\<lambda>B. shape B ! 0) bl = [3, 2]"
    using sh bl(2) by (simp add: bi ndim_def part_size_def)
  with bl mg wf len show ?thesis by auto
qed

text \<open>
  Claim C8.  Block enumeration order: the list returned by \<open>block_split\<close> holds the blocks
  in the lexicographic order of their block indices, the index of axis 0 varying slowest
  and the index of the last axis fastest (\<open>block_indices\<close>); and \<open>block_merge\<close>, which
  concatenates along the last axis first and along axis 0 last, applied to the blocks in
  exactly this order returns the array.
\<close>

theorem block_enumeration_order:
  assumes "wf_array A" and "length blocks = ndim A" and "\<And>b. b \<in> set blocks \<Longrightarrow> 1 \<le> b"
  shows "block_split A blocks = Inr (map (sub_block A blocks) (block_indices blocks))
       \<and> block_merge (map (sub_block A blocks) (block_indices blocks)) blocks = Inr A"
  using split_then_merge [OF assms] block_split_enum [OF assms] by auto

theorem block_enumeration_order_witness:
  "wf_array \<lparr>shape = [2, 5], elems = [0..<10::nat]\<rparr>
   \<and> length [2, 3 :: int] = ndim \<lparr>shape = [2, 5], elems = [0..<10::nat]\<rparr>
   \<and> list_all (\<lambda>b. 1 \<le> b) [2, 3 :: int]
   \<and> block_split \<lparr>shape = [2, 5], elems = [0..<10::nat]\<rparr> [2, 3]
       = Inr (map (sub_block \<lparr>shape = [2, 5], elems = [0..<10::nat]\<rparr> [2, 3])
                  [[0, 0], [0, 1], [0, 2], [1, 0], [1, 1], [1, 2]])
   \<and> block_merge (map (sub_block \<lparr>shape = [2, 5], elems = [0..<10::nat]\<rparr> [2, 3])
                       [[0, 0], [0, 1], [0, 2], [1, 0], [1, 1], [1, 2]]) [2, 3]
       = Inr \<lparr>shape = [2, 5], elems = [0..<10::nat]\<rparr>"
proof -
  let ?A = "\<lparr>shape = [2, 5], elems = [0..<10::nat]\<rparr>"
  have wf: "wf_array ?A" by (simp add: wf_array_def)
  have len: "length [2, 3 :: int] = ndim ?A" by (simp add: ndim_def)
  have pos: "\<And>b. b \<in> set [2, 3 :: int] \<Longrightarrow> 1 \<le> b" by auto
  have bi: "block_indices [2, 3] = [[0, 0], [0, 1], [0, 2], [1, 0], [1, 1], [1, 2]]"
    by (simp add: block_indices_def upt_rec)
  from block_enumeration_order [OF wf len pos] wf len show ?thesis
    unfolding bi by simp
qed

text \<open>
  Claim C9, as stated, fails: the only dimension of the container is \<open>x\<close>; configured
  without a dimension the wrapper raises \<open>ValueError\<close> for the missing \<open>lat\<close>, where
  the wrapper configured with \<open>x\<close> splits and merges.
\<close>

theorem default_dimension_is_lat_not_first:
  "sizes (coord_dataset ''x'' 4) ''x'' = Some 4
   \<and> wrapper (parallel Inr None (Some 2) True 0 True 4) 0 (coord_dataset ''x'' 4)
      = (Inl (ValueError ''The dataset has no dimension 'lat'.''), 0)
   \<and> wrapper (parallel Inr (Some ''x'') (Some 2) True 0 True 4) 0 (coord_dataset ''x'' 4)
      = (Inr (Merged (coord_dataset ''x'' 4)), 3)"
  by code_simp

text \<open>
  Claim C9, amended.  A wrapper configured without a dimension behaves, on every container
  and for every setting of the other parameters, as the wrapper configured with the
  dimension named \<open>lat\<close>, and a wrapper configured without a chunk count as the wrapper
  configured with the chunk count \<open>mp.cpu_count()\<close>.  So with both defaults: a container
  without a variable named \<open>lat\<close> is rejected with \<open>ValueError\<close> and no task; a
  well-formed container with a variable \<open>lat\<close> and the dimension \<open>lat\<close> is, for
  \<open>cpu_count \<ge> 1\<close> and \<open>buffer \<ge> 0\<close>, split along \<open>lat\<close> into \<open>cpu_count\<close> parts by
  \<open>xr_split\<close>, with one task per part and one more on top of them, and the result is the
  computed graph when \<open>compute\<close> is set and the deferred graph otherwise.
\<close>

theorem parallel_defaults:
  "wrapper (parallel fn None None mg buffer cmp cpu_count) tasks ds
     = wrapper (parallel fn (Some ''lat'') (Some cpu_count) mg buffer cmp cpu_count) tasks ds
   \<and> parallel fn None nchunks mg buffer cmp cpu_count
     = parallel fn (Some ''lat'') nchunks mg buffer cmp cpu_count
   \<and> parallel fn dimn None mg buffer cmp cpu_count
     = parallel fn dimn (Some cpu_count) mg buffer cmp cpu_count
   \<and> (\<not> contains ds ''lat'' \<longrightarrow>
        wrapper (parallel fn None None mg buffer cmp cpu_count) tasks ds
          = (Inl (ValueError ''The dataset has no dimension 'lat'.''), tasks))
   \<and> (wf_dataset ds \<and> contains ds ''lat'' \<and> sizes ds ''lat'' = Some n
        \<and> 1 \<le> cpu_count \<and> 0 \<le> buffer \<longrightarrow>
        (\<exists>parts. xr_split ds ''lat'' cpu_count buffer = Inr parts
           \<and> length parts = nat cpu_count
           \<and> wrapper (parallel fn None None mg buffer cmp cpu_count) tasks ds
              = (if cmp
                 then compute_graph fn
                        (if mg then MergeNode parts ''lat'' buffer else ListNode parts)
                 else Inr (Deferred
                        (if mg then MergeNode parts ''lat'' buffer else ListNode parts)),
                 tasks + nat cpu_count + 1)))"
proof (intro conjI impI)
  show "wrapper (parallel fn None None mg buffer cmp cpu_count) tasks ds
     = wrapper (parallel fn (Some ''lat'') (Some cpu_count) mg buffer cmp cpu_count) tasks ds"
    by (simp add: parallel_def)
  show "parallel fn None nchunks mg buffer cmp cpu_count
     = parallel fn (Some ''lat'') nchunks mg buffer cmp cpu_count"
    by (rule parallel_default_dim)
  show "parallel fn dimn None mg buffer cmp cpu_count
     = parallel fn dimn (Some cpu_count) mg buffer cmp cpu_count"
    by (rule parallel_default_chunks)
next
  assume "\<not> contains ds ''lat''"
  then show "wrapper (parallel fn None None mg buffer cmp cpu_count) tasks ds
          = (Inl (ValueError ''The dataset has no dimension 'lat'.''), tasks)"
    by (rule wrapper_default_guard)
next
  assume h: "wf_dataset ds \<and> contains ds ''lat'' \<and> sizes ds ''lat'' = Some n
        \<and> 1 \<le> cpu_count \<and> 0 \<le> buffer"
  then have "wf_dataset ds" "contains ds ''lat''" "sizes ds ''lat'' = Some n"
    "1 \<le> cpu_count" "0 \<le> buffer" by simp_all
  then show "\<exists>parts. xr_split ds ''lat'' cpu_count buffer = Inr parts
           \<and> length parts = nat cpu_count
           \<and> wrapper (parallel fn None None mg buffer cmp cpu_count) tasks ds
              = (if cmp
                 then compute_graph fn
                        (if mg then MergeNode parts ''lat'' buffer else ListNode parts)
                 else Inr (Deferred
                        (if mg then MergeNode parts ''lat'' buffer else ListNode parts)),
                 tasks + nat cpu_count + 1)"
    by (rule wrapper_default_split)
qed

theorem parallel_defaults_witness:
  "\<not> contains (plain_dataset ''lat'' 8) ''lat''
   \<and> wrapper (parallel Inr None None True 0 True 4) 0 (plain_dataset ''lat'' 8)
       = (Inl (ValueError ''The dataset has no dimension 'lat'.''), 0)
   \<and> wf_dataset (coord_dataset ''lat'' 8) \<and> contains (coord_dataset ''lat'' 8) ''lat''
   \<and> sizes (coord_dataset ''lat'' 8) ''lat'' = Some 8 \<and> (1::int) \<le> 4 \<and> (0::int) \<le> 0
   \<and> wrapper (parallel Inr None None True 0 True 4) 0 (coord_dataset ''lat'' 8)
       = wrapper (parallel Inr (Some ''lat'') (Some 4) True 0 True 4) 0 (coord_dataset ''lat'' 8)
   \<and> (\<exists>parts. xr_split (coord_dataset ''lat'' 8) ''lat'' 4 0 = Inr parts
          \<and> length parts = 4
          \<and> wrapper (parallel Inr None None True 0 True 4) 0 (coord_dataset ''lat'' 8)
             = (compute_graph Inr (MergeNode parts ''lat'' 0), 5))
   \<and> wrapper (parallel Inr None None True 0 True 4) 0 (coord_dataset ''lat'' 8)
       = (Inr (Merged (coord_dataset ''lat'' 8)), 5)"
proof -
  have g: "\<not> contains (plain_dataset ''lat'' 8) ''lat''"
    by (simp add: contains_def plain_dataset_def)
  have h: "wf_dataset (coord_dataset ''lat'' 8) \<and> contains (coord_dataset ''lat'' 8) ''lat''
        \<and> sizes (coord_dataset ''lat'' 8) ''lat'' = Some 8 \<and> (1::int) \<le> 4 \<and> (0::int) \<le> 0"
    by (simp add: wf_coord) (simp add: coord_dataset_def contains_def)
  have e: "wrapper (parallel Inr None None True 0 True 4) 0 (coord_dataset ''lat'' 8)
       = (Inr (Merged (coord_dataset ''lat'' 8)), 5)"
    by code_simp
  note a = parallel_defaults [of Inr True 0 True 4 0 "plain_dataset ''lat'' 8" None None 8]
  note b = parallel_defaults [of Inr True 0 True 4 0 "coord_dataset ''lat'' 8" None None 8]
  from a g have 1: "wrapper (parallel Inr None None True 0 True 4) 0 (plain_dataset ''lat'' 8)
       = (Inl (ValueError ''The dataset has no dimension 'lat'.''), 0)" by blast
  from b have 2: "wrapper (parallel Inr None None True 0 True 4) 0 (coord_dataset ''lat'' 8)
       = wrapper (parallel Inr (Some ''lat'') (Some 4) True 0 True 4) 0 (coord_dataset ''lat'' 8)"
    by blast
  from b h have "\<exists>parts. xr_split (coord_dataset ''lat'' 8) ''lat'' 4 0 = Inr parts
          \<and> length parts = nat 4
          \<and> wrapper (parallel Inr None None True 0 True 4) 0 (coord_dataset ''lat'' 8)
             = (if True
                 then compute_graph Inr
                        (if True then MergeNode parts ''lat'' 0 else ListNode parts)
                 else Inr (Deferred
                        (if True then MergeNode parts ''lat'' 0 else ListNode parts)),
                 0 + nat 4 + 1)"
    by blast
  then have 3: "\<exists>parts. xr_split (coord_dataset ''lat'' 8) ''lat'' 4 0 = Inr parts
          \<and> length parts = 4
          \<and> wrapper (parallel Inr None None True 0 True 4) 0 (coord_dataset ''lat'' 8)
             = (compute_graph Inr (MergeNode parts ''lat'' 0), 5)"
    by simp
  from g h 1 2 3 e show ?thesis by blast
qed

text \<open>
  Claim C10, as stated, fails when the buffer exceeds the size: a container of size 3 and
  buffer 5 merge to a container of size 0, not \<open>2 * (3 - 5)\<close>.
\<close>

theorem single_chunk_merge_large_buffer:
  "xr_merge [plain_dataset ''x'' 3] ''x'' 5
     = Inr [(''v'', \<lparr>vdims = [''x''], vdata = \<lparr>shape = [0], elems = []\<rparr>\<rparr>)]
   \<and> sizes [(''v'', \<lparr>vdims = [''x''], vdata = \<lparr>shape = [0], elems = [] :: nat list\<rparr>\<rparr>)] ''x'' = Some 0
   \<and> int 0 \<noteq> 2 * (int 3 - 5)"
  by code_simp

text \<open>
  Claim C10, amended.  For a list of exactly one container, of size \<open>n\<close> along the
  dimension, and every \<open>buffer > 0\<close>, \<open>xr_merge\<close> concatenates the container trimmed by the
  rule for the first container (the range \<open>[0, n - buffer)\<close>) and the same container
  trimmed by the rule for the last one (the range \<open>[buffer, n)\<close>); the size of the result
  along the dimension is \<open>2 * max (n - buffer) 0\<close>.
\<close>

theorem single_chunk_merge:
  assumes "wf_dataset ds" and "sizes ds dimn = Some n" and "0 < buffer"
  shows "\<exists>r. xr_merge [ds] dimn buffer = Inr r
           \<and> xr_concat [select_range ds dimn 0 (n - nat buffer),
                         select_range ds dimn (nat buffer) n] dimn = Inr r
           \<and> map_option int (sizes r dimn) = Some (2 * max (int n - buffer) 0)"
  using xr_merge_single [OF assms] .

theorem single_chunk_merge_witness:
  "wf_dataset (plain_dataset ''x'' 3) \<and> sizes (plain_dataset ''x'' 3) ''x'' = Some 3 \<and> (0::int) < 1
   \<and> (\<exists>r. xr_merge [plain_dataset ''x'' 3] ''x'' 1 = Inr r
           \<and> xr_concat [select_range (plain_dataset ''x'' 3) ''x'' 0 2,
                         select_range (plain_dataset ''x'' 3) ''x'' 1 3] ''x'' = Inr r
           \<and> map_option int (sizes r ''x'') = Some 4)"
proof -
  have h: "wf_dataset (plain_dataset ''x'' 3)" "sizes (plain_dataset ''x'' 3) ''x'' = Some 3"
    "(0::int) < 1"
    by (simp_all add: wf_plain sizes_plain)
  from single_chunk_merge [OF h] h show ?thesis by simp
qed

end
